theory Spec2Isabelle
  imports Complex_Main "HOL-Library.Word" "HOL-Library.AList"
begin

section \<open>Go maps\<close>

text \<open>
  A Go map is modelled as an association list whose keys are pairwise distinct:
  \<open>m[k]\<close> is \<^term>\<open>map_of m k\<close>, \<open>m[k] = v\<close> is \<^term>\<open>AList.update k v m\<close>,
  \<open>delete(m, k)\<close> is \<^term>\<open>AList.delete k m\<close> and \<open>len(m)\<close> is \<^term>\<open>length m\<close>.
  A \<open>for k, v := range m\<close> loop whose body deletes at most the current key visits every
  entry that was present when the loop started exactly once, so it is a recursion over
  the entries of the map at loop entry. Go leaves the order of the visits open; the
  theorems below are stated through \<^const>\<open>map_of\<close> and do not depend on it.
\<close>

type_synonym ('k, 'v) gomap = "('k \<times> 'v) list"

definition wf_map :: "('k, 'v) gomap \<Rightarrow> bool" where
  "wf_map m = distinct (map fst m)"

section \<open>store/heightsub.go\<close>

type_synonym u64 = "64 word"

text \<open>
  A channel \<open>chan H\<close> made with capacity 1 is an address (a natural number handed out
  by \<open>make\<close>) into a store of buffers: \<open>None\<close> is the empty buffer, \<open>Some h\<close> the
  buffer holding \<open>h\<close>.
\<close>

type_synonym chan = nat

record 'h heightSub =
  height :: u64
  heightReqs :: "(u64, chan list) gomap"
  chanBuf :: "chan \<Rightarrow> 'h option"
  chanNext :: chan

datatype ctx_err = Canceled | DeadlineExceeded

datatype error = errElapsedHeight | ctxErr ctx_err

definition newHeightSub :: "'h heightSub" where
  "newHeightSub = \<lparr>height = 0, heightReqs = [], chanBuf = (\<lambda>_. None), chanNext = 0\<rparr>"

definition Height :: "'h heightSub \<Rightarrow> u64" where
  "Height hs = height hs"

definition SetHeight :: "u64 \<Rightarrow> 'h heightSub \<Rightarrow> 'h heightSub" where
  "SetHeight h hs = hs\<lparr>height := h\<rparr>"

subsection \<open>Sub\<close>

text \<open>
  \<open>Sub\<close> runs in three sections between which other goroutines may run: the check of
  line 46, the section under \<open>heightReqsLk\<close> of lines 50 to 60, and the \<open>select\<close> of
  lines 62 to 71. \<open>Sub_locked\<close> is the second one: it returns the error, or the channel
  it registered.
\<close>

definition Sub_locked :: "u64 \<Rightarrow> 'h heightSub \<Rightarrow> (error + chan) \<times> 'h heightSub" where
  "Sub_locked h hs =
     (if Height hs \<ge> h then (Inl errElapsedHeight, hs)
      else
        let resp = chanNext hs;
            bucket = (case map_of (heightReqs hs) h of None \<Rightarrow> [] | Some reqs \<Rightarrow> reqs)
        in (Inr resp,
            hs\<lparr>heightReqs := AList.update h (bucket @ [resp]) (heightReqs hs),
               chanBuf := (chanBuf hs)(resp := None),
               chanNext := Suc resp\<rparr>))"

text \<open>Lines 45 to 60 when no other goroutine runs between line 46 and line 50.\<close>

definition Sub_enter :: "u64 \<Rightarrow> 'h heightSub \<Rightarrow> (error + chan) \<times> 'h heightSub" where
  "Sub_enter h hs =
     (if Height hs \<ge> h then (Inl errElapsedHeight, hs) else Sub_locked h hs)"

text \<open>
  The \<open>select\<close>: the caller names the case that fires; \<open>None\<close> says that this case is
  not ready. When neither case is ready the goroutine stays blocked.
\<close>

datatype select_case = RecvResp | CtxDone

definition Sub_select ::
  "ctx_err option \<Rightarrow> select_case \<Rightarrow> u64 \<Rightarrow> chan \<Rightarrow> 'h heightSub
     \<Rightarrow> ((error + 'h) \<times> 'h heightSub) option" where
  "Sub_select ctx sc h resp hs =
     (case sc of
        RecvResp \<Rightarrow>
          (case chanBuf hs resp of
             None \<Rightarrow> None
           | Some v \<Rightarrow> Some (Inr v, hs\<lparr>chanBuf := (chanBuf hs)(resp := None)\<rparr>))
      | CtxDone \<Rightarrow>
          (case ctx of
             None \<Rightarrow> None
           | Some e \<Rightarrow>
               Some (Inl (ctxErr e), hs\<lparr>heightReqs := AList.delete h (heightReqs hs)\<rparr>)))"

definition Sub_blocked :: "ctx_err option \<Rightarrow> u64 \<Rightarrow> chan \<Rightarrow> 'h heightSub \<Rightarrow> bool" where
  "Sub_blocked ctx h resp hs =
     (Sub_select ctx RecvResp h resp hs = None \<and> Sub_select ctx CtxDone h resp hs = None)"

subsection \<open>Pub\<close>

text \<open>
  \<open>Pub\<close> ends in one of four ways: it returns; \<open>log.Fatal\<close> ends the process at
  line 87; the index of line 115 is out of range; a send of line 102 or 117 finds the
  buffer full and never completes. The state at that moment is returned with the outcome.
\<close>

datatype pub_outcome = Returned | Fatal | IndexPanic | SendBlocked

fun send_all :: "chan list \<Rightarrow> 'h \<Rightarrow> (chan \<Rightarrow> 'h option) \<Rightarrow> bool \<times> (chan \<Rightarrow> 'h option)" where
  "send_all [] h b = (True, b)"
| "send_all (req # reqs) h b =
     (case b req of
        None \<Rightarrow> send_all reqs h (b(req \<mapsto> h))
      | Some _ \<Rightarrow> (False, b))"

fun pub_loop ::
  "'h list \<Rightarrow> u64 \<Rightarrow> u64 \<Rightarrow> (u64 \<times> chan list) list \<Rightarrow> 'h heightSub
     \<Rightarrow> pub_outcome \<times> 'h heightSub" where
  "pub_loop headers from to [] hs = (Returned, hs)"
| "pub_loop headers from to ((h, reqs) # rest) hs =
     (if h \<ge> from \<and> h \<le> to then
        (if unat (h - from) < length headers then
           (case send_all reqs (headers ! unat (h - from)) (chanBuf hs) of
              (True, b) \<Rightarrow>
                pub_loop headers from to rest
                  (hs\<lparr>chanBuf := b, heightReqs := AList.delete h (heightReqs hs)\<rparr>)
            | (False, b) \<Rightarrow> (SendBlocked, hs\<lparr>chanBuf := b\<rparr>))
         else (IndexPanic, hs))
      else pub_loop headers from to rest hs)"

text \<open>
  The header type is a parameter of the package; \<open>hgt\<close> is \<open>uint64(h.Height())\<close>.
\<close>

definition Pub :: "('h \<Rightarrow> u64) \<Rightarrow> 'h list \<Rightarrow> 'h heightSub \<Rightarrow> pub_outcome \<times> 'h heightSub" where
  "Pub hgt headers hs =
     (let ln = length headers in
      if ln = 0 then (Returned, hs)
      else
        let from = hgt (headers ! 0); to = hgt (headers ! (ln - 1)) in
        if Height hs + 1 \<noteq> from then (Fatal, hs)
        else
          let hs1 = SetHeight to hs in
          if ln = 1 then
            (case map_of (heightReqs hs1) from of
               Some reqs \<Rightarrow>
                 (case send_all reqs (headers ! 0) (chanBuf hs1) of
                    (True, b) \<Rightarrow>
                      (Returned,
                       hs1\<lparr>chanBuf := b, heightReqs := AList.delete from (heightReqs hs1)\<rparr>)
                  | (False, b) \<Rightarrow> (SendBlocked, hs1\<lparr>chanBuf := b\<rparr>))
             | None \<Rightarrow> (Returned, hs1))
          else pub_loop headers from to (heightReqs hs1) hs1)"

subsection \<open>Well-formed states\<close>

text \<open>
  The states that \<open>newHeightSub\<close>, \<open>Sub\<close> and \<open>Pub\<close> produce: the keys of the map are
  distinct, every registered channel is registered once, is allocated and has an empty
  buffer.
\<close>

definition wf_heightSub :: "'h heightSub \<Rightarrow> bool" where
  "wf_heightSub hs =
     (wf_map (heightReqs hs) \<and>
      distinct (concat (map snd (heightReqs hs))) \<and>
      (\<forall>c \<in> set (concat (map snd (heightReqs hs))). chanBuf hs c = None \<and> c < chanNext hs))"

definition keys_above_height :: "'h heightSub \<Rightarrow> bool" where
  "keys_above_height hs = (\<forall>p \<in> set (heightReqs hs). Height hs < fst p)"

text \<open>
  A batch whose heights form the contiguous increasing range that starts at \<open>from\<close>:
  every header is one above the one before it, and the range does not wrap around
  \<open>uint64\<close>.
\<close>

fun consecutive :: "('h \<Rightarrow> u64) \<Rightarrow> u64 \<Rightarrow> 'h list \<Rightarrow> bool" where
  "consecutive hgt from [] = True"
| "consecutive hgt from (h # hs) = (hgt h = from \<and> consecutive hgt (from + 1) hs)"

definition contiguous :: "('h \<Rightarrow> u64) \<Rightarrow> 'h list \<Rightarrow> u64 \<Rightarrow> bool" where
  "contiguous hgt headers from =
     (consecutive hgt from headers \<and> unat from + length headers \<le> 2 ^ 64)"

subsection \<open>An example run\<close>

text \<open>
  \<open>SetHeight(10)\<close>, then four callers of \<open>Sub\<close> have registered: one for height 11, two
  for height 12 and one for height 15. The batch holds the headers of heights 11 to 13.
\<close>

definition hs_example :: "(u64 \<times> string) heightSub" where
  "hs_example =
     snd (Sub_locked 15 (snd (Sub_locked 12 (snd (Sub_locked 12 (snd (Sub_locked 11
       (SetHeight 10 newHeightSub))))))))"

definition headers_example :: "(u64 \<times> string) list" where
  "headers_example = [(11, ''a''), (12, ''b''), (13, ''c'')]"

section \<open>p2p/peer\_tracker.go\<close>

text \<open>
  \<open>float32\<close>: the finite values, the two infinities and NaN, with the comparison
  \<open><=\<close> of IEEE 754 (false as soon as one side is NaN). The tracker only compares scores.
\<close>

datatype float32 = Finite real | PosInf | NegInf | NaN

fun f32_le :: "float32 \<Rightarrow> float32 \<Rightarrow> bool" where
  "f32_le NaN _ = False"
| "f32_le _ NaN = False"
| "f32_le NegInf _ = True"
| "f32_le _ PosInf = True"
| "f32_le (Finite x) (Finite y) = (x \<le> y)"
| "f32_le PosInf _ = False"
| "f32_le _ NegInf = False"

definition defaultScore :: float32 where
  "defaultScore = Finite 1"

definition maxPeerTrackerSize :: nat where
  "maxPeerTrackerSize = 100"

text \<open>
  An instant is a number of nanoseconds; \<open>zeroTime\<close> is the zero value of \<open>time.Time\<close>,
  which a \<open>peerStat\<close> literal without \<open>pruneDeadline\<close> gets. \<open>t.Before(u)\<close> is \<open>t < u\<close>.
\<close>

type_synonym time = int

definition zeroTime :: time where
  "zeroTime = 0"

definition maxAwaitingTime :: int where
  "maxAwaitingTime = 3600 * 1000000000"

text \<open>
  The peer identity \<open>peer.ID\<close> is a type parameter. The maps hold \<open>*peerStat\<close>; the
  functions of peer\_tracker.go keep a \<open>peerStat\<close> in one entry of one map at a time, so
  the entry holds the value.
\<close>

record 'pid peerStat =
  peerID :: 'pid
  peerScore :: float32
  pruneDeadline :: time

text \<open>
  What \<open>connected\<close> reads of the host: \<open>host.ID()\<close>, and for the connections of
  \<open>host.Network().ConnsToPeer(pID)\<close> their \<open>Stat().Transient\<close>.
\<close>

record 'pid host =
  hostID :: 'pid
  connsToPeer :: "'pid \<Rightarrow> bool list"

text \<open>
  \<open>pidstore\<close> is \<open>None\<close> for the nil interface; otherwise it holds the arguments of the
  calls of \<open>Put\<close> so far, oldest first.
\<close>

record 'pid PeerTracker =
  trackedPeers :: "('pid, 'pid peerStat) gomap"
  disconnectedPeers :: "('pid, 'pid peerStat) gomap"
  pidstore :: "'pid list list option"

definition NewPeerTracker :: "'pid list list option \<Rightarrow> 'pid PeerTracker" where
  "NewPeerTracker store = \<lparr>trackedPeers = [], disconnectedPeers = [], pidstore = store\<rparr>"

text \<open>The loop of lines 124 to 129: true when it returns from \<open>connected\<close>.\<close>

fun has_transient :: "bool list \<Rightarrow> bool" where
  "has_transient [] = False"
| "has_transient (c # cs) = (if c then True else has_transient cs)"

definition connected :: "'pid host \<Rightarrow> 'pid \<Rightarrow> 'pid PeerTracker \<Rightarrow> 'pid PeerTracker" where
  "connected hst pID p =
     (if hostID hst = pID then p
      else if has_transient (connsToPeer hst pID) then p
      else if length (trackedPeers p) + length (disconnectedPeers p) > maxPeerTrackerSize \<and>
              length (trackedPeers p) > length (disconnectedPeers p) then p
      else
        (case map_of (disconnectedPeers p) pID of
           None \<Rightarrow>
             p\<lparr>trackedPeers :=
                 AList.update pID
                   \<lparr>peerID = pID, peerScore = defaultScore, pruneDeadline = zeroTime\<rparr>
                   (trackedPeers p)\<rparr>
         | Some stats \<Rightarrow>
             p\<lparr>disconnectedPeers := AList.delete pID (disconnectedPeers p),
               trackedPeers := AList.update pID stats (trackedPeers p)\<rparr>))"

text \<open>\<open>now\<close> is the value of \<open>time.Now()\<close> at line 159.\<close>

definition disconnected :: "time \<Rightarrow> 'pid \<Rightarrow> 'pid PeerTracker \<Rightarrow> 'pid PeerTracker" where
  "disconnected now pID p =
     (case map_of (trackedPeers p) pID of
        None \<Rightarrow> p
      | Some stats \<Rightarrow>
          p\<lparr>disconnectedPeers :=
              AList.update pID (stats\<lparr>pruneDeadline := now + maxAwaitingTime\<rparr>)
                (disconnectedPeers p),
            trackedPeers := AList.delete pID (trackedPeers p)\<rparr>)"

text \<open>
  One tick of \<open>gc\<close> (lines 186 to 206): the loop over \<open>disconnectedPeers\<close>, the loop over
  \<open>trackedPeers\<close> that also collects the identities it keeps, then \<open>persistPeers\<close>.
\<close>

fun gc_disconnected ::
  "time \<Rightarrow> ('pid \<times> 'pid peerStat) list \<Rightarrow> ('pid, 'pid peerStat) gomap
     \<Rightarrow> ('pid, 'pid peerStat) gomap" where
  "gc_disconnected now [] m = m"
| "gc_disconnected now ((pid, peer) # rest) m =
     (if pruneDeadline peer < now then gc_disconnected now rest (AList.delete pid m)
      else gc_disconnected now rest m)"

fun gc_tracked ::
  "('pid \<times> 'pid peerStat) list \<Rightarrow> ('pid, 'pid peerStat) gomap \<Rightarrow> 'pid list
     \<Rightarrow> ('pid, 'pid peerStat) gomap \<times> 'pid list" where
  "gc_tracked [] m ids = (m, ids)"
| "gc_tracked ((pid, peer) # rest) m ids =
     (if f32_le (peerScore peer) defaultScore then gc_tracked rest (AList.delete pid m) ids
      else gc_tracked rest m (ids @ [pid]))"

definition persistPeers :: "'pid list \<Rightarrow> 'pid PeerTracker \<Rightarrow> 'pid PeerTracker" where
  "persistPeers ids p =
     (case pidstore p of
        None \<Rightarrow> p
      | Some puts \<Rightarrow> p\<lparr>pidstore := Some (puts @ [ids])\<rparr>)"

definition gc_cycle :: "time \<Rightarrow> 'pid PeerTracker \<Rightarrow> 'pid PeerTracker" where
  "gc_cycle now p =
     (let d = gc_disconnected now (disconnectedPeers p) (disconnectedPeers p);
          (t, ids) = gc_tracked (trackedPeers p) (trackedPeers p) []
      in persistPeers ids (p\<lparr>disconnectedPeers := d, trackedPeers := t\<rparr>))"

text \<open>
  \<open>blockPeer\<close>: the errors of \<open>connGater.BlockPeer\<close> and \<open>ClosePeer\<close> are logged and the
  function goes on, so the tracker's state does not depend on them.
\<close>

definition blockPeer :: "'pid \<Rightarrow> 'pid PeerTracker \<Rightarrow> 'pid PeerTracker" where
  "blockPeer pID p =
     p\<lparr>trackedPeers := AList.delete pID (trackedPeers p),
       disconnectedPeers := AList.delete pID (disconnectedPeers p)\<rparr>"

subsection \<open>States of the tracker\<close>

definition wf_tracker :: "'pid PeerTracker \<Rightarrow> bool" where
  "wf_tracker p = (wf_map (trackedPeers p) \<and> wf_map (disconnectedPeers p))"

definition disjoint_maps :: "'pid PeerTracker \<Rightarrow> bool" where
  "disjoint_maps p = (fst ` set (trackedPeers p) \<inter> fst ` set (disconnectedPeers p) = {})"

inductive reachable :: "'pid PeerTracker \<Rightarrow> bool" where
  reach_new: "reachable (NewPeerTracker store)"
| reach_connected: "reachable p \<Longrightarrow> reachable (connected hst pID p)"
| reach_disconnected: "reachable p \<Longrightarrow> reachable (disconnected now pID p)"
| reach_gc: "reachable p \<Longrightarrow> reachable (gc_cycle now p)"
| reach_blockPeer: "reachable p \<Longrightarrow> reachable (blockPeer pID p)"

subsection \<open>An example tracker\<close>

text \<open>
  A host without transient connections; peers A and B connect, then A disconnects at
  instant 50.
\<close>

definition host_example :: "string host" where
  "host_example = \<lparr>hostID = ''self'', connsToPeer = (\<lambda>_. [False])\<rparr>"

definition tracker_example :: "string PeerTracker" where
  "tracker_example =
     disconnected 50 ''A'' (connected host_example ''B'' (connected host_example ''A''
       (NewPeerTracker None)))"

text \<open>
  Further states: a tracker with scores around \<open>defaultScore\<close> and deadlines around the
  instant 200; a tracker with 101 tracked peers and one disconnected peer; a tracker whose
  only peer has score 5; a host that has a transient connection to every peer.
\<close>

definition gc_example :: "string PeerTracker" where
  "gc_example =
     \<lparr>trackedPeers =
        [(''A'', \<lparr>peerID = ''A'', peerScore = Finite 5, pruneDeadline = 0\<rparr>),
         (''B'', \<lparr>peerID = ''B'', peerScore = Finite 1, pruneDeadline = 0\<rparr>),
         (''C'', \<lparr>peerID = ''C'', peerScore = Finite (1 / 2), pruneDeadline = 0\<rparr>),
         (''N'', \<lparr>peerID = ''N'', peerScore = NaN, pruneDeadline = 0\<rparr>)],
      disconnectedPeers =
        [(''D'', \<lparr>peerID = ''D'', peerScore = Finite 3, pruneDeadline = 100\<rparr>),
         (''E'', \<lparr>peerID = ''E'', peerScore = Finite 1, pruneDeadline = 300\<rparr>),
         (''F'', \<lparr>peerID = ''F'', peerScore = Finite 1, pruneDeadline = 200\<rparr>)],
      pidstore = Some []\<rparr>"

definition full_tracker :: "nat PeerTracker" where
  "full_tracker =
     \<lparr>trackedPeers =
        map (\<lambda>i. (i, \<lparr>peerID = i, peerScore = Finite 2, pruneDeadline = zeroTime\<rparr>)) [1..<102],
      disconnectedPeers = [(0, \<lparr>peerID = 0, peerScore = Finite 7, pruneDeadline = 99\<rparr>)],
      pidstore = None\<rparr>"

definition nat_host :: "nat host" where
  "nat_host = \<lparr>hostID = 1000, connsToPeer = (\<lambda>_. [False])\<rparr>"

definition scored_tracker :: "string PeerTracker" where
  "scored_tracker =
     \<lparr>trackedPeers = [(''A'', \<lparr>peerID = ''A'', peerScore = Finite 5, pruneDeadline = zeroTime\<rparr>)],
      disconnectedPeers = [], pidstore = None\<rparr>"

definition transient_host :: "string host" where
  "transient_host = \<lparr>hostID = ''self'', connsToPeer = (\<lambda>_. [False, True])\<rparr>"

section \<open>Properties of heightSub\<close>

lemma pub_loop_not_Fatal: "fst (pub_loop headers from to es hs) \<noteq> Fatal"
  by (induction headers "from" "to" es hs rule: pub_loop.induct)
     (auto split: prod.splits bool.splits)

lemma send_all_ok:
  "distinct reqs \<Longrightarrow> \<forall>c\<in>set reqs. b c = None \<Longrightarrow>
     send_all reqs h b = (True, \<lambda>c. if c \<in> set reqs then Some h else b c)"
proof (induction reqs arbitrary: b)
  case Nil
  then show ?case by simp
next
  case (Cons r rs)
  have "send_all rs h (b(r \<mapsto> h)) = (True, \<lambda>c. if c \<in> set rs then Some h else (b(r \<mapsto> h)) c)"
    using Cons.prems by (intro Cons.IH) auto
  then show ?case using Cons.prems by (auto simp: fun_eq_iff)
qed

lemma map_of_filter_key:
  "map_of (filter (\<lambda>p. P (fst p)) m) k = (if P k then map_of m k else None)"
  by (induction m) auto

lemma filter_delete:
  "filter P (AList.delete h m) = filter (\<lambda>p. P p \<and> fst p \<noteq> h) m"
  by (induction m) (auto simp: AList.delete_eq)

lemma pub_loop_skip:
  "\<not> (from \<le> h \<and> h \<le> to) \<Longrightarrow>
     pub_loop headers from to ((h, reqs) # rest) hs = pub_loop headers from to rest hs"
  by (simp only: pub_loop.simps if_False)

lemma pub_loop_hit:
  "from \<le> h \<Longrightarrow> h \<le> to \<Longrightarrow>
     pub_loop headers from to ((h, reqs) # rest) hs =
       (if unat (h - from) < length headers then
           (case send_all reqs (headers ! unat (h - from)) (chanBuf hs) of
              (True, b) \<Rightarrow>
                pub_loop headers from to rest
                  (hs\<lparr>chanBuf := b, heightReqs := AList.delete h (heightReqs hs)\<rparr>)
            | (False, b) \<Rightarrow> (SendBlocked, hs\<lparr>chanBuf := b\<rparr>))
         else (IndexPanic, hs))"
  by (simp only: pub_loop.simps simp_thms if_True)

lemma pub_loop_Returned_reqs:
  "pub_loop headers from to es hs = (Returned, hs') \<Longrightarrow>
     heightReqs hs' = filter (\<lambda>p. \<not> (from \<le> fst p \<and> fst p \<le> to \<and> fst p \<in> fst ` set es)) (heightReqs hs)
     \<and> height hs' = height hs \<and> chanNext hs' = chanNext hs"
proof (induction headers "from" "to" es hs rule: pub_loop.induct)
  case (1 headers "from" "to" hs)
  then show ?case by simp
next
  case (2 headers "from" "to" h reqs rest hs)
  show ?case
  proof (cases "from \<le> h \<and> h \<le> to")
    case False
    then have "pub_loop headers from to rest hs = (Returned, hs')"
      using 2(3) pub_loop_skip[OF False, of headers reqs rest hs] by (simp del: pub_loop.simps)
    from 2(2)[OF False this] False show ?thesis
      by (auto intro!: filter_cong)
  next
    case True
    then have eq: "(if unat (h - from) < length headers then
           (case send_all reqs (headers ! unat (h - from)) (chanBuf hs) of
              (True, b) \<Rightarrow>
                pub_loop headers from to rest
                  (hs\<lparr>chanBuf := b, heightReqs := AList.delete h (heightReqs hs)\<rparr>)
            | (False, b) \<Rightarrow> (SendBlocked, hs\<lparr>chanBuf := b\<rparr>))
         else (IndexPanic, hs)) = (Returned, hs')"
      using 2(3) pub_loop_hit[of "from" h "to" headers reqs rest hs] by (simp del: pub_loop.simps)
    then have idx: "unat (h - from) < length headers"
      by (simp split: if_splits)
    obtain b where snd: "send_all reqs (headers ! unat (h - from)) (chanBuf hs) = (True, b)"
      and rec: "pub_loop headers from to rest
                  (hs\<lparr>chanBuf := b, heightReqs := AList.delete h (heightReqs hs)\<rparr>) = (Returned, hs')"
      using eq idx by (simp split: prod.splits bool.splits)
    from 2(1)[OF True idx snd[symmetric] refl rec] True show ?thesis
      by (auto simp: filter_delete intro!: filter_cong)
  qed
qed


lemma pub_loop_fulfils:
  assumes "\<forall>p\<in>set es. from \<le> fst p \<and> fst p \<le> to \<longrightarrow> unat (fst p - from) < length headers"
    and "distinct (concat (map snd es))"
    and "\<forall>c\<in>set (concat (map snd es)). chanBuf hs c = None"
  shows "\<exists>hs'. pub_loop headers from to es hs = (Returned, hs') \<and>
           (\<forall>p\<in>set es. \<forall>c\<in>set (snd p).
               chanBuf hs' c =
                 (if from \<le> fst p \<and> fst p \<le> to then Some (headers ! unat (fst p - from))
                  else None)) \<and>
           (\<forall>c. c \<notin> set (concat (map snd es)) \<longrightarrow> chanBuf hs' c = chanBuf hs c)"
  using assms
proof (induction es arbitrary: hs)
  case Nil
  then show ?case by simp
next
  case (Cons e rest)
  obtain h reqs where e: "e = (h, reqs)" by (cases e)
  have d_reqs: "distinct reqs" and d_rest: "distinct (concat (map snd rest))"
    and disj: "set reqs \<inter> set (concat (map snd rest)) = {}"
    using Cons.prems(2) by (simp_all add: e)
  have idx_rest: "\<forall>p\<in>set rest. from \<le> fst p \<and> fst p \<le> to \<longrightarrow> unat (fst p - from) < length headers"
    using Cons.prems(1) by simp
  have notin: "c \<notin> set (concat (map snd rest))" if "c \<in> set reqs" for c
    using disj that by blast
  have emp_reqs: "\<forall>c\<in>set reqs. chanBuf hs c = None"
    and emp_rest: "\<forall>c\<in>set (concat (map snd rest)). chanBuf hs c = None"
    using Cons.prems(3) by (simp_all add: e)
  show ?case
  proof (cases "from \<le> h \<and> h \<le> to")
    case False
    have step: "pub_loop headers from to (e # rest) hs = pub_loop headers from to rest hs"
      unfolding e by (rule pub_loop_skip[OF False])
    obtain hs' where r: "pub_loop headers from to rest hs = (Returned, hs')"
      and f: "\<forall>p\<in>set rest. \<forall>c\<in>set (snd p).
               chanBuf hs' c =
                 (if from \<le> fst p \<and> fst p \<le> to then Some (headers ! unat (fst p - from))
                  else None)"
      and u: "\<forall>c. c \<notin> set (concat (map snd rest)) \<longrightarrow> chanBuf hs' c = chanBuf hs c"
      using Cons.IH[OF idx_rest d_rest emp_rest] by blast
    have here: "\<forall>c\<in>set reqs. chanBuf hs' c = None"
      using u notin emp_reqs by metis
    have "\<forall>c. c \<notin> set (concat (map snd (e # rest))) \<longrightarrow> chanBuf hs' c = chanBuf hs c"
      using u by (simp add: e)
    moreover have "\<forall>p\<in>set (e # rest). \<forall>c\<in>set (snd p).
               chanBuf hs' c =
                 (if from \<le> fst p \<and> fst p \<le> to then Some (headers ! unat (fst p - from))
                  else None)"
      using f here False by (auto simp: e)
    ultimately show ?thesis using r step by simp
  next
    case True
    have idx: "unat (h - from) < length headers"
      using Cons.prems(1) True by (simp add: e)
    let ?v = "headers ! unat (h - from)"
    let ?b = "\<lambda>c. if c \<in> set reqs then Some ?v else chanBuf hs c"
    let ?hs1 = "hs\<lparr>chanBuf := ?b, heightReqs := AList.delete h (heightReqs hs)\<rparr>"
    have snd: "send_all reqs ?v (chanBuf hs) = (True, ?b)"
      by (rule send_all_ok[OF d_reqs emp_reqs])
    have step: "pub_loop headers from to (e # rest) hs = pub_loop headers from to rest ?hs1"
      unfolding e using True idx snd by (simp add: pub_loop_hit del: pub_loop.simps)
    have emp1: "\<forall>c\<in>set (concat (map snd rest)). chanBuf ?hs1 c = None"
    proof
      fix c assume c: "c \<in> set (concat (map snd rest))"
      then have "c \<notin> set reqs" using notin by blast
      moreover have "chanBuf hs c = None" using emp_rest c by blast
      ultimately show "chanBuf ?hs1 c = None" by simp
    qed
    obtain hs' where r: "pub_loop headers from to rest ?hs1 = (Returned, hs')"
      and f: "\<forall>p\<in>set rest. \<forall>c\<in>set (snd p).
               chanBuf hs' c =
                 (if from \<le> fst p \<and> fst p \<le> to then Some (headers ! unat (fst p - from))
                  else None)"
      and u: "\<forall>c. c \<notin> set (concat (map snd rest)) \<longrightarrow> chanBuf hs' c = chanBuf ?hs1 c"
      using Cons.IH[OF idx_rest d_rest emp1] by blast
    have here: "\<forall>c\<in>set reqs. chanBuf hs' c = Some ?v"
    proof
      fix c assume c: "c \<in> set reqs"
      then have "chanBuf hs' c = chanBuf ?hs1 c" using u notin by blast
      then show "chanBuf hs' c = Some ?v" using c by simp
    qed
    have "\<forall>c. c \<notin> set (concat (map snd (e # rest))) \<longrightarrow> chanBuf hs' c = chanBuf hs c"
      using u by (simp add: e)
    moreover have "\<forall>p\<in>set (e # rest). \<forall>c\<in>set (snd p).
               chanBuf hs' c =
                 (if from \<le> fst p \<and> fst p \<le> to then Some (headers ! unat (fst p - from))
                  else None)"
      using f here True by (auto simp: e)
    ultimately show ?thesis using r step by simp
  qed
qed

lemma consecutive_nth:
  "consecutive hgt from headers \<Longrightarrow> i < length headers \<Longrightarrow> hgt (headers ! i) = from + of_nat i"
proof (induction headers arbitrary: "from" i)
  case Nil
  then show ?case by simp
next
  case (Cons h hs)
  then show ?case by (cases i) (auto simp: add.assoc)
qed

lemma range_index:
  fixes k :: u64
  assumes "unat from + n \<le> 2 ^ 64" "0 < n" "from \<le> k" "k \<le> from + of_nat (n - 1)"
  shows "unat (k - from) < n"
proof -
  let ?m = "n - 1"
  have m: "?m < 2 ^ 64" using assms(1,2) by simp
  have um: "unat (of_nat ?m :: u64) = ?m"
    using m by (simp add: unat_of_nat)
  have "unat from + unat (of_nat ?m :: u64) < 2 ^ LENGTH(64)"
    using assms(1,2) um by simp
  then have "unat (from + of_nat ?m) = unat from + unat (of_nat ?m :: u64)"
    by (rule iffD1[OF unat_add_lem])
  then have "unat (from + of_nat ?m) = unat from + ?m"
    using um by (simp only:)
  then have "unat k \<le> unat from + ?m"
    using assms(4) by (simp add: word_le_nat_alt)
  moreover have "unat (k - from) = unat k - unat from"
    using assms(3) by (simp add: unat_sub)
  ultimately show ?thesis using assms(2) by simp
qed


lemma buckets_disjoint:
  "distinct (concat (map snd m)) \<Longrightarrow> p \<in> set m \<Longrightarrow> q \<in> set m \<Longrightarrow> fst p \<noteq> fst q
     \<Longrightarrow> set (snd p) \<inter> set (snd q) = {}"
proof (induction m)
  case Nil
  then show ?case by simp
next
  case (Cons e m)
  then show ?case by (cases "p = e"; cases "q = e") auto
qed

lemma bucket_chans:
  "p \<in> set m \<Longrightarrow> c \<in> set (snd p) \<Longrightarrow> c \<in> set (concat (map snd m))"
  by auto

lemma word_between_eq: "(a \<le> k \<and> k \<le> a) = (k = a)" for a k :: u64
  by auto

lemma Pub_Returned_reqs:
  assumes "Pub hgt headers hs = (Returned, hs')" and "headers \<noteq> []"
  shows "heightReqs hs' =
           filter (\<lambda>p. \<not> (hgt (headers ! 0) \<le> fst p \<and> fst p \<le> hgt (headers ! (length headers - 1))))
             (heightReqs hs)
         \<and> height hs' = hgt (headers ! (length headers - 1))
         \<and> chanNext hs' = chanNext hs
         \<and> Height hs + 1 = hgt (headers ! 0)"
proof -
  let ?from = "hgt (headers ! 0)" and ?to = "hgt (headers ! (length headers - 1))"
  let ?hs1 = "SetHeight ?to hs"
  have ln: "length headers \<noteq> 0" using assms(2) by simp
  have ok: "Height hs + 1 = ?from"
    using assms(1) ln by (auto simp: Pub_def Let_def split: if_splits)
  show ?thesis
  proof (cases "length headers = 1")
    case False
    then have "pub_loop headers ?from ?to (heightReqs ?hs1) ?hs1 = (Returned, hs')"
      using assms(1) ln ok by (simp add: Pub_def Let_def)
    from pub_loop_Returned_reqs[OF this] ok show ?thesis
      by (auto simp: SetHeight_def intro!: filter_cong)
  next
    case True
    then have to: "?to = ?from" by simp
    show ?thesis
    proof (cases "map_of (heightReqs hs) ?from")
      case None
      then have hs': "hs' = ?hs1"
        using assms(1) ln ok True by (simp add: Pub_def Let_def SetHeight_def)
      have "\<forall>p\<in>set (heightReqs hs). fst p \<noteq> ?from"
        using None by (force simp: map_of_eq_None_iff)
      then have "filter (\<lambda>p. \<not> (?from \<le> fst p \<and> fst p \<le> ?to)) (heightReqs hs) = heightReqs hs"
        unfolding to word_between_eq by (simp add: filter_id_conv)
      then show ?thesis using hs' ok by (simp add: SetHeight_def)
    next
      case (Some reqs)
      then obtain b where "send_all reqs (headers ! 0) (chanBuf hs) = (True, b)"
        and hs': "hs' = ?hs1\<lparr>chanBuf := b, heightReqs := AList.delete ?from (heightReqs ?hs1)\<rparr>"
        using assms(1) ln ok True
        by (auto simp: Pub_def Let_def SetHeight_def split: prod.splits bool.splits)
      have "filter (\<lambda>p. \<not> (?from \<le> fst p \<and> fst p \<le> ?to)) (heightReqs hs)
              = AList.delete ?from (heightReqs hs)"
        unfolding to word_between_eq by (auto simp: AList.delete_eq intro!: filter_cong)
      then show ?thesis using hs' ok by (simp add: SetHeight_def)
    qed
  qed
qed


lemma bucket_distinct:
  "distinct (concat (map snd m)) \<Longrightarrow> p \<in> set m \<Longrightarrow> distinct (snd p)"
  by (induction m) auto

lemma Pub_fulfils:
  assumes wf: "wf_heightSub hs" and ne: "headers \<noteq> []"
    and ok: "Height hs + 1 = hgt (headers ! 0)"
    and idx: "\<forall>p\<in>set (heightReqs hs).
                hgt (headers ! 0) \<le> fst p \<and> fst p \<le> hgt (headers ! (length headers - 1))
                  \<longrightarrow> unat (fst p - hgt (headers ! 0)) < length headers"
  shows "\<exists>hs'. Pub hgt headers hs = (Returned, hs') \<and>
           (\<forall>p\<in>set (heightReqs hs). \<forall>c\<in>set (snd p).
               chanBuf hs' c =
                 (if hgt (headers ! 0) \<le> fst p \<and> fst p \<le> hgt (headers ! (length headers - 1))
                  then Some (headers ! unat (fst p - hgt (headers ! 0))) else None)) \<and>
           (\<forall>c. c \<notin> set (concat (map snd (heightReqs hs))) \<longrightarrow> chanBuf hs' c = chanBuf hs c)"
proof -
  let ?from = "hgt (headers ! 0)" and ?to = "hgt (headers ! (length headers - 1))"
  let ?hs1 = "SetHeight ?to hs"
  let ?m = "heightReqs hs"
  have ln: "length headers \<noteq> 0" using ne by simp
  have dk: "distinct (map fst ?m)" and dc: "distinct (concat (map snd ?m))"
    and emp: "\<forall>c\<in>set (concat (map snd ?m)). chanBuf hs c = None"
    using wf by (simp_all add: wf_heightSub_def wf_map_def)
  show ?thesis
  proof (cases "length headers = 1")
    case False
    have P: "Pub hgt headers hs = pub_loop headers ?from ?to (heightReqs ?hs1) ?hs1"
      using ln ok False by (simp add: Pub_def Let_def)
    have "\<exists>hs'. pub_loop headers ?from ?to (heightReqs ?hs1) ?hs1 = (Returned, hs') \<and>
           (\<forall>p\<in>set (heightReqs ?hs1). \<forall>c\<in>set (snd p).
               chanBuf hs' c =
                 (if ?from \<le> fst p \<and> fst p \<le> ?to then Some (headers ! unat (fst p - ?from))
                  else None)) \<and>
           (\<forall>c. c \<notin> set (concat (map snd (heightReqs ?hs1))) \<longrightarrow> chanBuf hs' c = chanBuf ?hs1 c)"
      by (rule pub_loop_fulfils) (use idx dc emp in \<open>simp_all add: SetHeight_def\<close>)
    then show ?thesis unfolding P by (simp add: SetHeight_def)
  next
    case True
    then have to: "?to = ?from" by simp
    show ?thesis
    proof (cases "map_of ?m ?from")
      case None
      then have P: "Pub hgt headers hs = (Returned, ?hs1)"
        using ln ok True by (simp add: Pub_def Let_def SetHeight_def)
      have nokey: "\<forall>p\<in>set ?m. fst p \<noteq> ?from"
        using None by (force simp: map_of_eq_None_iff)
      have "\<forall>p\<in>set ?m. \<forall>c\<in>set (snd p). chanBuf ?hs1 c =
                 (if ?from \<le> fst p \<and> fst p \<le> ?to then Some (headers ! unat (fst p - ?from))
                  else None)"
      proof (intro ballI)
        fix p c assume p: "p \<in> set ?m" and c: "c \<in> set (snd p)"
        have "chanBuf hs c = None" using emp bucket_chans[OF p c] by blast
        moreover have "fst p \<noteq> ?from" using nokey p by blast
        ultimately show "chanBuf ?hs1 c =
                 (if ?from \<le> fst p \<and> fst p \<le> ?to then Some (headers ! unat (fst p - ?from))
                  else None)"
          unfolding to word_between_eq by (simp add: SetHeight_def)
      qed
      then show ?thesis unfolding P by (simp add: SetHeight_def)
    next
      case (Some reqs)
      have mem: "(?from, reqs) \<in> set ?m" using Some by (rule map_of_SomeD)
      have d_reqs: "distinct reqs" using bucket_distinct[OF dc mem] by simp
      have in_reqs: "c \<in> set (concat (map snd ?m))" if "c \<in> set reqs" for c
        by (rule bucket_chans[OF mem]) (simp add: that)
      have e_reqs: "\<forall>c\<in>set reqs. chanBuf hs c = None"
        using emp in_reqs by blast
      let ?b = "\<lambda>c. if c \<in> set reqs then Some (headers ! 0) else chanBuf hs c"
      let ?hs' = "?hs1\<lparr>chanBuf := ?b, heightReqs := AList.delete ?from (heightReqs ?hs1)\<rparr>"
      have snd: "send_all reqs (headers ! 0) (chanBuf hs) = (True, ?b)"
        by (rule send_all_ok[OF d_reqs e_reqs])
      have P: "Pub hgt headers hs = (Returned, ?hs')"
        using ln ok True Some snd by (simp add: Pub_def Let_def SetHeight_def)
      have "\<forall>p\<in>set ?m. \<forall>c\<in>set (snd p). ?b c =
                 (if ?from \<le> fst p \<and> fst p \<le> ?to then Some (headers ! unat (fst p - ?from))
                  else None)"
      proof (intro ballI)
        fix p c assume p: "p \<in> set ?m" and c: "c \<in> set (snd p)"
        show "?b c = (if ?from \<le> fst p \<and> fst p \<le> ?to then Some (headers ! unat (fst p - ?from))
                  else None)"
        proof (cases "fst p = ?from")
          case True
          then have "map_of ?m ?from = Some (snd p)"
            using dk p by (metis map_of_is_SomeI prod.collapse)
          then have "snd p = reqs" using Some by simp
          then show ?thesis using True c unfolding to word_between_eq by simp
        next
          case False
          then have "set (snd p) \<inter> set reqs = {}"
            using buckets_disjoint[OF dc p mem] by simp
          then have "c \<notin> set reqs" using c by blast
          moreover have "chanBuf hs c = None" using emp bucket_chans[OF p c] by blast
          ultimately show ?thesis using False unfolding to word_between_eq by simp
        qed
      qed
      moreover have "\<forall>c. c \<notin> set (concat (map snd ?m)) \<longrightarrow> ?b c = chanBuf hs c"
        using in_reqs by auto
      ultimately show ?thesis unfolding P by simp
    qed
  qed
qed

text \<open>
  C6: when the height of the heightSub is already at or above the requested height,
  \<open>Sub\<close> returns \<open>errElapsedHeight\<close> at its first check, and so does the check under the
  lock; the state, and with it the map of pending requests, is the one before the call.
\<close>

theorem Sub_elapsed_height:
  "Height hs \<ge> h \<Longrightarrow>
     Sub_enter h hs = (Inl errElapsedHeight, hs) \<and> Sub_locked h hs = (Inl errElapsedHeight, hs)"
  by (simp add: Sub_enter_def Sub_locked_def)

theorem Sub_elapsed_height_witness:
  "Height (SetHeight 10 (newHeightSub :: nat heightSub)) \<ge> 10 \<and>
   Sub_enter 10 (SetHeight 10 (newHeightSub :: nat heightSub))
     = (Inl errElapsedHeight, SetHeight 10 newHeightSub) \<and>
   Sub_locked 10 (SetHeight 10 (newHeightSub :: nat heightSub))
     = (Inl errElapsedHeight, SetHeight 10 newHeightSub)"
  using Sub_elapsed_height [of 10 "SetHeight 10 (newHeightSub :: nat heightSub)"]
  by (simp add: Height_def SetHeight_def newHeightSub_def)

lemma hs_example_eq:
  "hs_example = \<lparr>height = 10, heightReqs = [(11, [0]), (12, [1, 2]), (15, [3])],
                  chanBuf = (\<lambda>_. None), chanNext = 4\<rparr>"
  by (simp add: hs_example_def Sub_locked_def SetHeight_def Height_def newHeightSub_def Let_def
        fun_eq_iff)

text \<open>
  C2: let the state be well formed and the batch be non-empty, with heights that form the
  contiguous increasing range from \<open>Height() + 1\<close> to the height of its last header.
  Then \<open>Pub\<close> returns; \<open>Height()\<close> is the height of the last header; every channel
  registered under a height \<open>k\<close> of the range holds the header at offset \<open>k - from\<close> of
  the batch, whose height is \<open>k\<close>, and the waiting \<open>Sub\<close> receives it; no height of the
  range has a bucket any more; every bucket outside the range (so every bucket above the
  last height) is the one before the call, and its channels are still empty.
\<close>

theorem Pub_contiguous_range:
  assumes wf: "wf_heightSub hs" and ne: "headers \<noteq> []"
    and cont: "contiguous hgt headers (Height hs + 1)"
  shows "fst (Pub hgt headers hs) = Returned \<and>
         Height (snd (Pub hgt headers hs)) = hgt (last headers) \<and>
         (\<forall>k reqs c. map_of (heightReqs hs) k = Some reqs \<and> c \<in> set reqs \<and>
                      Height hs + 1 \<le> k \<and> k \<le> hgt (last headers) \<longrightarrow>
            chanBuf (snd (Pub hgt headers hs)) c = Some (headers ! unat (k - (Height hs + 1))) \<and>
            hgt (headers ! unat (k - (Height hs + 1))) = k \<and>
            (\<exists>s. Sub_select ctx RecvResp k c (snd (Pub hgt headers hs))
                    = Some (Inr (headers ! unat (k - (Height hs + 1))), s))) \<and>
         (\<forall>k. Height hs + 1 \<le> k \<and> k \<le> hgt (last headers) \<longrightarrow>
            map_of (heightReqs (snd (Pub hgt headers hs))) k = None) \<and>
         (\<forall>k. \<not> (Height hs + 1 \<le> k \<and> k \<le> hgt (last headers)) \<longrightarrow>
            map_of (heightReqs (snd (Pub hgt headers hs))) k = map_of (heightReqs hs) k) \<and>
         (\<forall>k reqs c. map_of (heightReqs hs) k = Some reqs \<and> c \<in> set reqs \<and>
                      \<not> (Height hs + 1 \<le> k \<and> k \<le> hgt (last headers)) \<longrightarrow>
            chanBuf (snd (Pub hgt headers hs)) c = None)"
proof -
  let ?from = "Height hs + 1" and ?to = "hgt (last headers)"
  let ?n = "length headers"
  have n: "0 < ?n" using ne by simp
  have cons: "consecutive hgt ?from headers" and nowrap: "unat ?from + ?n \<le> 2 ^ 64"
    using cont by (simp_all add: contiguous_def)
  have h0: "hgt (headers ! 0) = ?from"
    using consecutive_nth[OF cons n] by simp
  have hl: "hgt (headers ! (?n - 1)) = ?from + of_nat (?n - 1)"
  proof -
    have "?n - 1 < ?n" using n by simp
    then show ?thesis by (rule consecutive_nth[OF cons])
  qed
  have to: "?to = hgt (headers ! (?n - 1))"
    using ne by (simp add: last_conv_nth)
  have idx: "unat (k - ?from) < ?n" if "?from \<le> k" "k \<le> ?to" for k
    using range_index[OF nowrap n that(1)] that(2) unfolding to hl by simp
  have at: "hgt (headers ! unat (k - ?from)) = k" if "?from \<le> k" "k \<le> ?to" for k
    using consecutive_nth[OF cons idx[OF that]] by simp
  have idx': "\<forall>p\<in>set (heightReqs hs).
                hgt (headers ! 0) \<le> fst p \<and> fst p \<le> hgt (headers ! (?n - 1))
                  \<longrightarrow> unat (fst p - hgt (headers ! 0)) < ?n"
    unfolding h0 to[symmetric] using idx by blast
  obtain hs' where P: "Pub hgt headers hs = (Returned, hs')"
    and f: "\<forall>p\<in>set (heightReqs hs). \<forall>c\<in>set (snd p).
               chanBuf hs' c =
                 (if ?from \<le> fst p \<and> fst p \<le> ?to
                  then Some (headers ! unat (fst p - ?from)) else None)"
    using Pub_fulfils[OF wf ne h0[symmetric] idx'] unfolding h0 to[symmetric] by blast
  have m: "heightReqs hs' = filter (\<lambda>p. \<not> (?from \<le> fst p \<and> fst p \<le> ?to)) (heightReqs hs)"
    and ht: "height hs' = ?to"
    using Pub_Returned_reqs[OF P ne] unfolding h0 to[symmetric] by simp_all
  have lk: "map_of (heightReqs hs') k =
              (if \<not> (?from \<le> k \<and> k \<le> ?to) then map_of (heightReqs hs) k else None)" for k
    unfolding m by (rule map_of_filter_key)
  have c0: "fst (Pub hgt headers hs) = Returned" and c0': "snd (Pub hgt headers hs) = hs'"
    using P by simp_all
  have c1: "\<forall>k reqs c. map_of (heightReqs hs) k = Some reqs \<and> c \<in> set reqs \<and>
                      ?from \<le> k \<and> k \<le> ?to \<longrightarrow>
            chanBuf hs' c = Some (headers ! unat (k - ?from)) \<and>
            hgt (headers ! unat (k - ?from)) = k \<and>
            (\<exists>s. Sub_select ctx RecvResp k c hs' = Some (Inr (headers ! unat (k - ?from)), s))"
  proof (intro allI impI, elim conjE)
    fix k reqs c
    assume a: "map_of (heightReqs hs) k = Some reqs" "c \<in> set reqs" "?from \<le> k" "k \<le> ?to"
    have "(k, reqs) \<in> set (heightReqs hs)" using a(1) by (rule map_of_SomeD)
    then have "chanBuf hs' c = Some (headers ! unat (k - ?from))"
      using f a(2,3,4) by force
    then show "chanBuf hs' c = Some (headers ! unat (k - ?from)) \<and>
            hgt (headers ! unat (k - ?from)) = k \<and>
            (\<exists>s. Sub_select ctx RecvResp k c hs' = Some (Inr (headers ! unat (k - ?from)), s))"
      using at[OF a(3,4)] by (simp add: Sub_select_def)
  qed
  have c2: "\<forall>k reqs c. map_of (heightReqs hs) k = Some reqs \<and> c \<in> set reqs \<and>
                      \<not> (?from \<le> k \<and> k \<le> ?to) \<longrightarrow> chanBuf hs' c = None"
  proof (intro allI impI, elim conjE)
    fix k reqs c
    assume a: "map_of (heightReqs hs) k = Some reqs" "c \<in> set reqs" "\<not> (?from \<le> k \<and> k \<le> ?to)"
    have "(k, reqs) \<in> set (heightReqs hs)" using a(1) by (rule map_of_SomeD)
    then show "chanBuf hs' c = None" using f a(2,3) by force
  qed
  have c3: "\<forall>k. ?from \<le> k \<and> k \<le> ?to \<longrightarrow> map_of (heightReqs hs') k = None"
    using lk by simp
  have c4: "\<forall>k. \<not> (?from \<le> k \<and> k \<le> ?to) \<longrightarrow>
              map_of (heightReqs hs') k = map_of (heightReqs hs) k"
    using lk by simp
  have c5: "Height hs' = ?to" using ht by (simp add: Height_def)
  show ?thesis
    unfolding c0' using c0 c5 c1 c3 c4 c2 by (intro conjI)
qed

theorem Pub_contiguous_range_witness:
  "wf_heightSub hs_example \<and> headers_example \<noteq> [] \<and>
   contiguous fst headers_example (Height hs_example + 1) \<and>
   fst (Pub fst headers_example hs_example) = Returned \<and>
   Height (snd (Pub fst headers_example hs_example)) = 13 \<and>
   chanBuf (snd (Pub fst headers_example hs_example)) 0 = Some (11, ''a'') \<and>
   chanBuf (snd (Pub fst headers_example hs_example)) 1 = Some (12, ''b'') \<and>
   chanBuf (snd (Pub fst headers_example hs_example)) 2 = Some (12, ''b'') \<and>
   chanBuf (snd (Pub fst headers_example hs_example)) 3 = None \<and>
   map_of (heightReqs (snd (Pub fst headers_example hs_example))) 11 = None \<and>
   map_of (heightReqs (snd (Pub fst headers_example hs_example))) 12 = None \<and>
   map_of (heightReqs (snd (Pub fst headers_example hs_example))) 15 = Some [3]"
  using Pub_contiguous_range [of hs_example headers_example fst]
  by (simp add: hs_example_eq headers_example_def wf_heightSub_def wf_map_def contiguous_def
        Height_def SetHeight_def Pub_def Let_def)

lemma Pub_empty: "Pub hgt [] hs = (Returned, hs)"
  by (simp add: Pub_def)

lemma Pub_Fatal_iff:
  "headers \<noteq> [] \<Longrightarrow> (fst (Pub hgt headers hs) = Fatal) = (hgt (headers ! 0) \<noteq> Height hs + 1)"
proof (cases "Height hs + 1 = hgt (headers ! 0)")
  case False
  assume "headers \<noteq> []"
  with False show ?thesis by (auto simp: Pub_def Let_def)
next
  case True
  assume ne: "headers \<noteq> []"
  have "fst (Pub hgt headers hs) \<noteq> Fatal"
    using ne True
    by (auto simp: Pub_def Let_def pub_loop_not_Fatal split: option.splits prod.splits bool.splits)
  with True show ?thesis by auto
qed

lemma Pub_Fatal_state: "fst (Pub hgt headers hs) = Fatal \<Longrightarrow> snd (Pub hgt headers hs) = hs"
proof (cases "headers = []")
  case True
  then show ?thesis by (simp add: Pub_empty)
next
  case False
  assume "fst (Pub hgt headers hs) = Fatal"
  then have "hgt (headers ! 0) \<noteq> Height hs + 1"
    using Pub_Fatal_iff[OF False] by simp
  then show ?thesis using False by (auto simp: Pub_def Let_def)
qed

text \<open>
  C5: \<open>Pub\<close> of no header returns with the state as it was. \<open>Pub\<close> of a non-empty batch
  takes the \<open>log.Fatal\<close> exit exactly when the height of the first header differs from
  \<open>Height() + 1\<close>, and the state at that exit is the state before the call, height and
  pending requests included.
\<close>

theorem Pub_fatal_exit:
  "Pub hgt [] hs = (Returned, hs) \<and>
   (headers \<noteq> [] \<longrightarrow>
      (fst (Pub hgt headers hs) = Fatal) = (hgt (headers ! 0) \<noteq> Height hs + 1)) \<and>
   (fst (Pub hgt headers hs) = Fatal \<longrightarrow> snd (Pub hgt headers hs) = hs)"
  using Pub_empty Pub_Fatal_iff Pub_Fatal_state by blast

theorem Pub_fatal_exit_witness:
  "[(5 :: u64, ''x'')] \<noteq> [] \<and>
   fst (Pub fst [(5 :: u64, ''x'')] hs_example) = Fatal \<and>
   snd (Pub fst [(5 :: u64, ''x'')] hs_example) = hs_example \<and>
   fst (Pub fst headers_example hs_example) = Returned \<and>
   fst (headers_example ! 0) = Height hs_example + 1"
  using Pub_fatal_exit [of fst hs_example "[(5, ''x'')]"]
    Pub_fatal_exit [of fst hs_example headers_example]
  by (simp add: hs_example_eq headers_example_def Height_def SetHeight_def Pub_def Let_def)


lemma keys_above_newHeightSub: "keys_above_height newHeightSub"
  by (simp add: keys_above_height_def newHeightSub_def)

lemma set_update_cases:
  "p \<in> set (AList.update k v m) \<Longrightarrow> p = (k, v) \<or> p \<in> set m"
  by (induction m) (auto split: if_splits)

lemma keys_above_Sub_locked:
  assumes "keys_above_height hs"
  shows "keys_above_height (snd (Sub_locked h hs))"
proof (cases "Height hs \<ge> h")
  case True
  then show ?thesis using assms by (simp add: Sub_locked_def)
next
  case False
  let ?v = "(case map_of (heightReqs hs) h of None \<Rightarrow> [] | Some reqs \<Rightarrow> reqs) @ [chanNext hs]"
  have m: "heightReqs (snd (Sub_locked h hs)) = AList.update h ?v (heightReqs hs)"
    and ht: "Height (snd (Sub_locked h hs)) = Height hs"
    using False by (simp_all add: Sub_locked_def Let_def Height_def)
  show ?thesis
    unfolding keys_above_height_def ht m
  proof
    fix p assume "p \<in> set (AList.update h ?v (heightReqs hs))"
    then have "p = (h, ?v) \<or> p \<in> set (heightReqs hs)" by (rule set_update_cases)
    then show "Height hs < fst p"
      using assms False by (auto simp: keys_above_height_def)
  qed
qed

lemma keys_above_Sub_enter:
  "keys_above_height hs \<Longrightarrow> keys_above_height (snd (Sub_enter h hs))"
  using keys_above_Sub_locked[of hs h] by (simp add: Sub_enter_def)

lemma keys_above_Sub_select:
  assumes "keys_above_height hs" and "Sub_select ctx sc h resp hs = Some (r, hs')"
  shows "keys_above_height hs'"
proof (cases sc)
  case RecvResp
  then have "hs' = hs\<lparr>chanBuf := (chanBuf hs)(resp := None)\<rparr>"
    using assms(2) by (auto simp: Sub_select_def split: option.splits)
  then show ?thesis
    using assms(1) by (simp add: keys_above_height_def Height_def)
next
  case CtxDone
  then have "hs' = hs\<lparr>heightReqs := AList.delete h (heightReqs hs)\<rparr>"
    using assms(2) by (auto simp: Sub_select_def split: option.splits)
  then show ?thesis
    using assms(1) by (simp add: keys_above_height_def Height_def AList.delete_eq)
qed

lemma keys_above_Pub_Returned:
  assumes inv: "keys_above_height hs" and ret: "fst (Pub hgt headers hs) = Returned"
  shows "keys_above_height (snd (Pub hgt headers hs))"
proof (cases "headers = []")
  case True
  then show ?thesis using inv by (simp add: Pub_empty)
next
  case False
  obtain hs' where P: "Pub hgt headers hs = (Returned, hs')"
    using ret by (cases "Pub hgt headers hs") simp
  let ?from = "hgt (headers ! 0)" and ?to = "hgt (headers ! (length headers - 1))"
  have m: "heightReqs hs' = filter (\<lambda>p. \<not> (?from \<le> fst p \<and> fst p \<le> ?to)) (heightReqs hs)"
    and ht: "height hs' = ?to" and ok: "Height hs + 1 = ?from"
    using Pub_Returned_reqs[OF P False] by simp_all
  have "Height hs' < fst p" if p: "p \<in> set (heightReqs hs')" for p
  proof -
    have k: "p \<in> set (heightReqs hs)" and out: "\<not> (?from \<le> fst p \<and> fst p \<le> ?to)"
      using p unfolding m by simp_all
    have "Height hs < fst p" using inv k by (simp add: keys_above_height_def)
    then have "?from \<le> fst p" unfolding ok[symmetric] by (rule inc_le)
    then have "?to < fst p" using out by simp
    then show ?thesis using ht by (simp add: Height_def)
  qed
  then show ?thesis unfolding P by (simp add: keys_above_height_def)
qed

lemma Pub_contiguous_Returned:
  assumes wf: "wf_heightSub hs" and ne: "headers \<noteq> []"
    and cont: "contiguous hgt headers (Height hs + 1)"
  shows "fst (Pub hgt headers hs) = Returned"
proof -
  let ?from = "Height hs + 1" and ?n = "length headers"
  have n: "0 < ?n" using ne by simp
  have cons: "consecutive hgt ?from headers" and nowrap: "unat ?from + ?n \<le> 2 ^ 64"
    using cont by (simp_all add: contiguous_def)
  have h0: "hgt (headers ! 0) = ?from"
    using consecutive_nth[OF cons n] by simp
  have hl: "hgt (headers ! (?n - 1)) = ?from + of_nat (?n - 1)"
  proof -
    have "?n - 1 < ?n" using n by simp
    then show ?thesis by (rule consecutive_nth[OF cons])
  qed
  have "\<forall>p\<in>set (heightReqs hs).
          hgt (headers ! 0) \<le> fst p \<and> fst p \<le> hgt (headers ! (?n - 1))
            \<longrightarrow> unat (fst p - hgt (headers ! 0)) < ?n"
    unfolding h0 hl using range_index[OF nowrap n] by blast
  from Pub_fulfils[OF wf ne h0[symmetric] this] show ?thesis by auto
qed

text \<open>
  C10: that every key of \<open>heightReqs\<close> is above the height is kept by the registration of
  \<open>Sub\<close> (with or without the first check), by each case of its \<open>select\<close> (the
  cancellation among them), by \<open>Pub\<close> whenever \<open>Pub\<close> returns or takes the \<open>log.Fatal\<close>
  exit, and so by \<open>Pub\<close> of any contiguous batch on a well-formed state. (When \<open>Pub\<close>
  stops at the index of line 115 or at a send, the height is already advanced and buckets
  of the range are still in the map.)
\<close>

theorem keys_above_height_preserved:
  assumes "keys_above_height hs"
  shows "keys_above_height (snd (Sub_locked h hs)) \<and>
         keys_above_height (snd (Sub_enter h hs)) \<and>
         (\<forall>ctx sc resp r hs'.
            Sub_select ctx sc h resp hs = Some (r, hs') \<longrightarrow> keys_above_height hs') \<and>
         (fst (Pub hgt headers hs) = Returned \<or> fst (Pub hgt headers hs) = Fatal \<longrightarrow>
            keys_above_height (snd (Pub hgt headers hs))) \<and>
         (wf_heightSub hs \<and> headers \<noteq> [] \<and> contiguous hgt headers (Height hs + 1) \<longrightarrow>
            keys_above_height (snd (Pub hgt headers hs)))"
proof (intro conjI allI impI)
  show "keys_above_height (snd (Sub_locked h hs))"
    by (rule keys_above_Sub_locked[OF assms])
  show "keys_above_height (snd (Sub_enter h hs))"
    by (rule keys_above_Sub_enter[OF assms])
next
  fix ctx sc resp r hs'
  assume "Sub_select ctx sc h resp hs = Some (r, hs')"
  then show "keys_above_height hs'" by (rule keys_above_Sub_select[OF assms])
next
  assume "fst (Pub hgt headers hs) = Returned \<or> fst (Pub hgt headers hs) = Fatal"
  then show "keys_above_height (snd (Pub hgt headers hs))"
  proof
    assume "fst (Pub hgt headers hs) = Returned"
    then show ?thesis by (rule keys_above_Pub_Returned[OF assms])
  next
    assume "fst (Pub hgt headers hs) = Fatal"
    then show ?thesis using Pub_Fatal_state[of hgt headers hs] assms by simp
  qed
next
  assume "wf_heightSub hs \<and> headers \<noteq> [] \<and> contiguous hgt headers (Height hs + 1)"
  then have "fst (Pub hgt headers hs) = Returned"
    using Pub_contiguous_Returned[of hs headers hgt] by simp
  then show "keys_above_height (snd (Pub hgt headers hs))"
    by (rule keys_above_Pub_Returned[OF assms])
qed

theorem keys_above_height_preserved_witness:
  "keys_above_height hs_example \<and>
   keys_above_height (snd (Sub_locked 12 hs_example)) \<and>
   map_of (heightReqs (snd (Sub_locked 12 hs_example))) 12 = Some [1, 2, 4] \<and>
   keys_above_height (snd (Sub_enter 12 hs_example)) \<and>
   Sub_select (Some Canceled) CtxDone 12 1 hs_example
     = Some (Inl (ctxErr Canceled), hs_example\<lparr>heightReqs := [(11, [0]), (15, [3])]\<rparr>) \<and>
   keys_above_height (hs_example\<lparr>heightReqs := [(11, [0]), (15, [3])]\<rparr>) \<and>
   wf_heightSub hs_example \<and> headers_example \<noteq> [] \<and>
   contiguous fst headers_example (Height hs_example + 1) \<and>
   fst (Pub fst headers_example hs_example) = Returned \<and>
   keys_above_height (snd (Pub fst headers_example hs_example)) \<and>
   Height (snd (Pub fst headers_example hs_example)) = 13 \<and>
   map fst (heightReqs (snd (Pub fst headers_example hs_example))) = [15]"
  using keys_above_height_preserved [of hs_example 12 fst headers_example]
  by (simp add: hs_example_eq headers_example_def keys_above_height_def Height_def SetHeight_def
        Pub_def Let_def Sub_locked_def Sub_enter_def Sub_select_def AList.delete_eq
        wf_heightSub_def wf_map_def contiguous_def)

lemma wf_newHeightSub: "wf_heightSub newHeightSub"
  by (simp add: wf_heightSub_def wf_map_def newHeightSub_def)

lemma wf_SetHeight: "wf_heightSub hs \<Longrightarrow> wf_heightSub (SetHeight h hs)"
  by (simp add: wf_heightSub_def SetHeight_def)

lemma update_bucket:
  assumes "distinct (concat (map snd m))" and "c \<notin> set (concat (map snd m))"
  shows "distinct (concat (map snd
           (AList.update k ((case map_of m k of None \<Rightarrow> [] | Some r \<Rightarrow> r) @ [c]) m))) \<and>
         set (concat (map snd
           (AList.update k ((case map_of m k of None \<Rightarrow> [] | Some r \<Rightarrow> r) @ [c]) m)))
           = insert c (set (concat (map snd m)))"
  using assms by (induction m) auto

lemma filter_buckets:
  "distinct (concat (map snd m)) \<Longrightarrow> distinct (concat (map snd (filter P m)))"
  by (induction m) auto

lemma wf_filter:
  assumes "wf_heightSub hs"
  shows "wf_heightSub (hs\<lparr>heightReqs := filter P (heightReqs hs)\<rparr>)"
  using assms
  by (auto simp: wf_heightSub_def wf_map_def distinct_map_filter filter_buckets)

lemma delete_filter: "AList.delete h m = filter (\<lambda>p. fst p \<noteq> h) m"
  by (auto simp: AList.delete_eq intro!: filter_cong)

lemma wf_Sub_locked:
  assumes wf: "wf_heightSub hs"
  shows "wf_heightSub (snd (Sub_locked h hs))"
proof (cases "Height hs \<ge> h")
  case True
  then show ?thesis using wf by (simp add: Sub_locked_def)
next
  case False
  let ?c = "chanNext hs"
  let ?m = "heightReqs hs"
  let ?m' = "AList.update h ((case map_of ?m h of None \<Rightarrow> [] | Some r \<Rightarrow> r) @ [?c]) ?m"
  have eq: "snd (Sub_locked h hs) =
              hs\<lparr>heightReqs := ?m', chanBuf := (chanBuf hs)(?c := None), chanNext := Suc ?c\<rparr>"
    using False by (simp add: Sub_locked_def Let_def)
  have dk: "distinct (map fst ?m)" and dc: "distinct (concat (map snd ?m))"
    and old: "\<forall>c\<in>set (concat (map snd ?m)). chanBuf hs c = None \<and> c < ?c"
    using wf by (simp_all add: wf_heightSub_def wf_map_def)
  have fresh: "?c \<notin> set (concat (map snd ?m))" using old by blast
  have d': "distinct (concat (map snd ?m'))"
    and s': "set (concat (map snd ?m')) = insert ?c (set (concat (map snd ?m)))"
    using update_bucket[OF dc fresh, of h] by simp_all
  have "distinct (map fst ?m')" using dk by (rule AList.distinct_update)
  moreover have "\<forall>c\<in>set (concat (map snd ?m')).
                   ((chanBuf hs)(?c := None)) c = None \<and> c < Suc ?c"
    unfolding s' using old by (simp add: less_Suc_eq)
  ultimately show ?thesis
    unfolding eq using d' by (simp add: wf_heightSub_def wf_map_def)
qed

lemma wf_Sub_select:
  assumes wf: "wf_heightSub hs" and sel: "Sub_select ctx sc h resp hs = Some (r, hs')"
  shows "wf_heightSub hs'"
proof (cases sc)
  case RecvResp
  then have "hs' = hs\<lparr>chanBuf := (chanBuf hs)(resp := None)\<rparr>"
    using sel by (auto simp: Sub_select_def split: option.splits)
  then show ?thesis using wf by (simp add: wf_heightSub_def)
next
  case CtxDone
  then have "hs' = hs\<lparr>heightReqs := filter (\<lambda>p. fst p \<noteq> h) (heightReqs hs)\<rparr>"
    using sel by (auto simp: Sub_select_def delete_filter split: option.splits)
  then show ?thesis using wf_filter[OF wf] by simp
qed

lemma wf_Pub:
  assumes wf: "wf_heightSub hs" and ne: "headers \<noteq> []"
    and ok: "Height hs + 1 = hgt (headers ! 0)"
    and idx: "\<forall>p\<in>set (heightReqs hs).
                hgt (headers ! 0) \<le> fst p \<and> fst p \<le> hgt (headers ! (length headers - 1))
                  \<longrightarrow> unat (fst p - hgt (headers ! 0)) < length headers"
  shows "wf_heightSub (snd (Pub hgt headers hs))"
proof -
  let ?in = "\<lambda>k. hgt (headers ! 0) \<le> k \<and> k \<le> hgt (headers ! (length headers - 1))"
  obtain hs' where P: "Pub hgt headers hs = (Returned, hs')"
    and f: "\<forall>p\<in>set (heightReqs hs). \<forall>c\<in>set (snd p).
               chanBuf hs' c =
                 (if ?in (fst p) then Some (headers ! unat (fst p - hgt (headers ! 0))) else None)"
    using Pub_fulfils[OF wf ne ok idx] by blast
  have m: "heightReqs hs' = filter (\<lambda>p. \<not> ?in (fst p)) (heightReqs hs)"
    and nx: "chanNext hs' = chanNext hs"
    using Pub_Returned_reqs[OF P ne] by simp_all
  have w: "wf_heightSub (hs\<lparr>heightReqs := filter (\<lambda>p. \<not> ?in (fst p)) (heightReqs hs)\<rparr>)"
    by (rule wf_filter[OF wf])
  have "\<forall>c\<in>set (concat (map snd (heightReqs hs'))). chanBuf hs' c = None \<and> c < chanNext hs'"
  proof
    fix c assume "c \<in> set (concat (map snd (heightReqs hs')))"
    then obtain p where p: "p \<in> set (heightReqs hs)" "\<not> ?in (fst p)" and c: "c \<in> set (snd p)"
      unfolding m by auto
    have "chanBuf hs' c = None" using f p c by auto
    moreover have "c < chanNext hs"
      using wf bucket_chans[OF p(1) c] unfolding wf_heightSub_def by blast
    ultimately show "chanBuf hs' c = None \<and> c < chanNext hs'" using nx by simp
  qed
  then show ?thesis
    unfolding P using w m by (simp add: wf_heightSub_def)
qed

text \<open>
  C1: the cancellation of one caller deletes the whole bucket of its height: the
  registration of another caller waiting for the same height is gone with it, and the
  later \<open>Pub\<close> of that height leaves that caller blocked. Here the height is 10, a first
  caller registers channel 0 for height 12, a second caller registers channel 1 for
  height 12 and is cancelled, then the headers of heights 11 and 12 are published.
\<close>

theorem Sub_cancel_deletes_bucket:
  "\<exists>s1 s2 s3 s4.
     Sub_enter 12 (SetHeight 10 (newHeightSub :: (u64 \<times> string) heightSub)) = (Inr 0, s1) \<and>
     heightReqs s1 = [(12, [0])] \<and>
     Sub_enter 12 s1 = (Inr 1, s2) \<and>
     heightReqs s2 = [(12, [0, 1])] \<and>
     Sub_select (Some Canceled) CtxDone 12 1 s2 = Some (Inl (ctxErr Canceled), s3) \<and>
     heightReqs s3 = [] \<and>
     Pub fst [(11, ''a''), (12, ''b'')] s3 = (Returned, s4) \<and>
     Height s4 = 12 \<and>
     chanBuf s4 0 = None \<and>
     Sub_blocked None 12 0 s4"
  by (simp add: Sub_enter_def Sub_locked_def Sub_select_def Sub_blocked_def SetHeight_def
        Height_def newHeightSub_def Pub_def Let_def AList.delete_eq)

section \<open>Properties of PeerTracker\<close>

lemma Collect_Cons:
  "{e \<in> set (x # xs). Q e} = (if Q x then insert x {e \<in> set xs. Q e} else {e \<in> set xs. Q e})"
  by auto

lemma gc_disconnected_filter:
  "gc_disconnected now es m =
     filter (\<lambda>p. fst p \<notin> fst ` {e \<in> set es. pruneDeadline (snd e) < now}) m"
proof (induction es arbitrary: m)
  case Nil
  then show ?case by simp
next
  case (Cons e es)
  obtain k st where e: "e = (k, st)" by (cases e)
  show ?case
    unfolding e Collect_Cons by (simp add: Cons.IH delete_filter conj_commute)
qed

lemma gc_tracked_filter:
  "gc_tracked es m ids =
     (filter (\<lambda>p. fst p \<notin> fst ` {e \<in> set es. f32_le (peerScore (snd e)) defaultScore}) m,
      ids @ map fst (filter (\<lambda>e. \<not> f32_le (peerScore (snd e)) defaultScore) es))"
proof (induction es arbitrary: m ids)
  case Nil
  then show ?case by simp
next
  case (Cons e es)
  obtain k st where e: "e = (k, st)" by (cases e)
  show ?case
    unfolding e Collect_Cons by (simp add: Cons.IH delete_filter conj_commute)
qed

lemma distinct_key_unique:
  "distinct (map fst m) \<Longrightarrow> p \<in> set m \<Longrightarrow> q \<in> set m \<Longrightarrow> fst p = fst q \<Longrightarrow> p = q"
  by (metis eq_key_imp_eq_value prod.collapse)

lemma filter_self:
  assumes "distinct (map fst m)"
  shows "filter (\<lambda>p. fst p \<notin> fst ` {e \<in> set m. Q (snd e)}) m = filter (\<lambda>p. \<not> Q (snd p)) m"
proof (rule filter_cong[OF refl])
  fix p assume p: "p \<in> set m"
  show "(fst p \<notin> fst ` {e \<in> set m. Q (snd e)}) = (\<not> Q (snd p))"
  proof
    assume "fst p \<notin> fst ` {e \<in> set m. Q (snd e)}"
    then show "\<not> Q (snd p)" using p by force
  next
    assume nq: "\<not> Q (snd p)"
    show "fst p \<notin> fst ` {e \<in> set m. Q (snd e)}"
    proof
      assume "fst p \<in> fst ` {e \<in> set m. Q (snd e)}"
      then obtain e where e: "e \<in> set m" "Q (snd e)" "fst p = fst e" by auto
      then have "p = e" using distinct_key_unique[OF assms p e(1)] by simp
      then show False using nq e(2) by simp
    qed
  qed
qed

lemma map_of_filter_value:
  "distinct (map fst m) \<Longrightarrow>
     map_of (filter (\<lambda>p. P (snd p)) m) k =
       (case map_of m k of None \<Rightarrow> None | Some v \<Rightarrow> if P v then Some v else None)"
proof (induction m)
  case Nil
  then show ?case by simp
next
  case (Cons e m)
  obtain k' v' where e: "e = (k', v')" by (cases e)
  have notin: "k' \<notin> fst ` set (filter (\<lambda>p. P (snd p)) m)"
    using Cons.prems by (auto simp: e)
  then have none: "map_of (filter (\<lambda>p. P (snd p)) m) k' = None"
    by (simp add: map_of_eq_None_iff)
  show ?case using Cons none by (auto simp: e)
qed

lemma gc_cycle_disconnected:
  assumes "wf_tracker p"
  shows "map_of (disconnectedPeers (gc_cycle now p)) k =
           (case map_of (disconnectedPeers p) k of
              None \<Rightarrow> None
            | Some st \<Rightarrow> if pruneDeadline st < now then None else Some st)"
proof -
  have d: "distinct (map fst (disconnectedPeers p))"
    using assms by (simp add: wf_tracker_def wf_map_def)
  have "disconnectedPeers (gc_cycle now p) =
          filter (\<lambda>q. \<not> pruneDeadline (snd q) < now) (disconnectedPeers p)"
    by (simp add: gc_cycle_def Let_def persistPeers_def gc_disconnected_filter gc_tracked_filter
          filter_self[OF d, of "\<lambda>st. pruneDeadline st < now"] split: option.splits)
  then show ?thesis
    using map_of_filter_value[OF d, of "\<lambda>st. \<not> pruneDeadline st < now" k]
    by (simp split: option.splits)
qed

lemma gc_cycle_tracked:
  assumes "wf_tracker p"
  shows "trackedPeers (gc_cycle now p) =
           filter (\<lambda>q. \<not> f32_le (peerScore (snd q)) defaultScore) (trackedPeers p)"
    and "map_of (trackedPeers (gc_cycle now p)) k =
           (case map_of (trackedPeers p) k of
              None \<Rightarrow> None
            | Some st \<Rightarrow> if f32_le (peerScore st) defaultScore then None else Some st)"
proof -
  have d: "distinct (map fst (trackedPeers p))"
    using assms by (simp add: wf_tracker_def wf_map_def)
  show t: "trackedPeers (gc_cycle now p) =
          filter (\<lambda>q. \<not> f32_le (peerScore (snd q)) defaultScore) (trackedPeers p)"
    by (simp add: gc_cycle_def Let_def persistPeers_def gc_disconnected_filter gc_tracked_filter
          filter_self[OF d, of "\<lambda>st. f32_le (peerScore st) defaultScore"] split: option.splits)
  show "map_of (trackedPeers (gc_cycle now p)) k =
           (case map_of (trackedPeers p) k of
              None \<Rightarrow> None
            | Some st \<Rightarrow> if f32_le (peerScore st) defaultScore then None else Some st)"
    unfolding t
    using map_of_filter_value[OF d, of "\<lambda>st. \<not> f32_le (peerScore st) defaultScore" k]
    by (simp split: option.splits)
qed

lemma gc_cycle_pidstore:
  "pidstore (gc_cycle now p) =
     (case pidstore p of
        None \<Rightarrow> None
      | Some puts \<Rightarrow>
          Some (puts @ [map fst (filter (\<lambda>q. \<not> f32_le (peerScore (snd q)) defaultScore)
                                   (trackedPeers p))]))"
  by (simp add: gc_cycle_def Let_def persistPeers_def gc_tracked_filter split: option.splits)

lemma keys_delete: "fst ` set (AList.delete k m) = fst ` set m - {k}"
  by (auto simp: delete_filter)

lemma gc_cycle_maps:
  "trackedPeers (gc_cycle now p) =
     filter (\<lambda>q. fst q \<notin> fst ` {e \<in> set (trackedPeers p). f32_le (peerScore (snd e)) defaultScore})
       (trackedPeers p)"
  "disconnectedPeers (gc_cycle now p) =
     filter (\<lambda>q. fst q \<notin> fst ` {e \<in> set (disconnectedPeers p). pruneDeadline (snd e) < now})
       (disconnectedPeers p)"
  by (simp_all add: gc_cycle_def Let_def persistPeers_def gc_disconnected_filter gc_tracked_filter
        split: option.splits)

lemma gc_cycle_subset:
  "set (trackedPeers (gc_cycle now p)) \<subseteq> set (trackedPeers p) \<and>
   set (disconnectedPeers (gc_cycle now p)) \<subseteq> set (disconnectedPeers p)"
  unfolding gc_cycle_maps by simp

lemma connected_cases:
  "connected hst pID p = p \<or>
   (map_of (disconnectedPeers p) pID = None \<and>
    connected hst pID p =
      p\<lparr>trackedPeers :=
          AList.update pID \<lparr>peerID = pID, peerScore = defaultScore, pruneDeadline = zeroTime\<rparr>
            (trackedPeers p)\<rparr>) \<or>
   (\<exists>stats. map_of (disconnectedPeers p) pID = Some stats \<and>
      connected hst pID p =
        p\<lparr>disconnectedPeers := AList.delete pID (disconnectedPeers p),
          trackedPeers := AList.update pID stats (trackedPeers p)\<rparr>)"
  by (simp add: connected_def split: option.splits)

lemma disconnected_cases:
  "disconnected now pID p = p \<or>
   (\<exists>stats. map_of (trackedPeers p) pID = Some stats \<and>
      disconnected now pID p =
        p\<lparr>disconnectedPeers :=
            AList.update pID (stats\<lparr>pruneDeadline := now + maxAwaitingTime\<rparr>)
              (disconnectedPeers p),
          trackedPeers := AList.delete pID (trackedPeers p)\<rparr>)"
  by (simp add: disconnected_def split: option.splits)


lemma disjoint_NewPeerTracker: "disjoint_maps (NewPeerTracker store)"
  by (simp add: disjoint_maps_def NewPeerTracker_def)

lemma disjoint_connected:
  assumes "disjoint_maps p"
  shows "disjoint_maps (connected hst pID p)"
  using connected_cases[of hst pID p]
proof (elim disjE exE conjE)
  assume "connected hst pID p = p"
  then show ?thesis using assms by simp
next
  assume n: "map_of (disconnectedPeers p) pID = None"
    and c: "connected hst pID p =
      p\<lparr>trackedPeers :=
          AList.update pID \<lparr>peerID = pID, peerScore = defaultScore, pruneDeadline = zeroTime\<rparr>
            (trackedPeers p)\<rparr>"
  have "pID \<notin> fst ` set (disconnectedPeers p)"
    using n by (simp add: map_of_eq_None_iff)
  then show ?thesis
    unfolding c using assms by (simp add: disjoint_maps_def AList.dom_update)
next
  fix stats
  assume c: "connected hst pID p =
        p\<lparr>disconnectedPeers := AList.delete pID (disconnectedPeers p),
          trackedPeers := AList.update pID stats (trackedPeers p)\<rparr>"
  show ?thesis
    unfolding c using assms
    by (simp add: disjoint_maps_def AList.dom_update keys_delete) blast
qed

lemma disjoint_disconnected:
  assumes "disjoint_maps p"
  shows "disjoint_maps (disconnected now pID p)"
  using disconnected_cases[of now pID p]
proof (elim disjE exE conjE)
  assume "disconnected now pID p = p"
  then show ?thesis using assms by simp
next
  fix stats
  assume c: "disconnected now pID p =
        p\<lparr>disconnectedPeers :=
            AList.update pID (stats\<lparr>pruneDeadline := now + maxAwaitingTime\<rparr>)
              (disconnectedPeers p),
          trackedPeers := AList.delete pID (trackedPeers p)\<rparr>"
  show ?thesis
    unfolding c using assms
    by (simp add: disjoint_maps_def AList.dom_update keys_delete) blast
qed

lemma disjoint_gc_cycle: "disjoint_maps p \<Longrightarrow> disjoint_maps (gc_cycle now p)"
  using gc_cycle_subset[of now p] unfolding disjoint_maps_def by blast

lemma disjoint_blockPeer: "disjoint_maps p \<Longrightarrow> disjoint_maps (blockPeer pID p)"
  unfolding disjoint_maps_def blockPeer_def by (simp add: keys_delete) blast

lemma reachable_disjoint: "reachable p \<Longrightarrow> disjoint_maps p"
  by (induction rule: reachable.induct)
     (simp_all add: disjoint_NewPeerTracker disjoint_connected disjoint_disconnected
        disjoint_gc_cycle disjoint_blockPeer)

lemma wf_NewPeerTracker: "wf_tracker (NewPeerTracker store)"
  by (simp add: wf_tracker_def wf_map_def NewPeerTracker_def)

lemma wf_connected:
  assumes "wf_tracker p"
  shows "wf_tracker (connected hst pID p)"
  using connected_cases[of hst pID p] assms
  by (elim disjE exE conjE)
     (simp_all add: wf_tracker_def wf_map_def AList.distinct_update AList.distinct_delete)

lemma wf_disconnected:
  assumes "wf_tracker p"
  shows "wf_tracker (disconnected now pID p)"
  using disconnected_cases[of now pID p] assms
  by (elim disjE exE conjE)
     (simp_all add: wf_tracker_def wf_map_def AList.distinct_update AList.distinct_delete)

lemma wf_gc_cycle: "wf_tracker p \<Longrightarrow> wf_tracker (gc_cycle now p)"
  unfolding wf_tracker_def wf_map_def gc_cycle_maps by (simp add: distinct_map_filter)

lemma wf_blockPeer: "wf_tracker p \<Longrightarrow> wf_tracker (blockPeer pID p)"
  by (simp add: wf_tracker_def wf_map_def blockPeer_def AList.distinct_delete)

lemma reachable_wf: "reachable p \<Longrightarrow> wf_tracker p"
  by (induction rule: reachable.induct)
     (simp_all add: wf_NewPeerTracker wf_connected wf_disconnected wf_gc_cycle wf_blockPeer)

lemma tracker_example_step1: "connected host_example ''A'' (NewPeerTracker None) = 
   \<lparr>trackedPeers = [(''A'', \<lparr>peerID = ''A'', peerScore = Finite 1, pruneDeadline = 0\<rparr>)],
      disconnectedPeers = [],
      pidstore = None\<rparr>"
  by (simp add: host_example_def connected_def
        NewPeerTracker_def maxPeerTrackerSize_def defaultScore_def zeroTime_def)

lemma tracker_example_step2: "connected host_example ''B'' (connected host_example ''A'' (NewPeerTracker None)) = 
   \<lparr>trackedPeers = [(''A'', \<lparr>peerID = ''A'', peerScore = Finite 1, pruneDeadline = 0\<rparr>),
        (''B'', \<lparr>peerID = ''B'', peerScore = Finite 1, pruneDeadline = 0\<rparr>)],
      disconnectedPeers = [],
      pidstore = None\<rparr>"
  unfolding tracker_example_step1
  by (simp add: host_example_def connected_def
        maxPeerTrackerSize_def defaultScore_def zeroTime_def)

lemma tracker_example_eq:
  "tracker_example =
     \<lparr>trackedPeers = [(''B'', \<lparr>peerID = ''B'', peerScore = Finite 1, pruneDeadline = 0\<rparr>)],
      disconnectedPeers =
        [(''A'', \<lparr>peerID = ''A'', peerScore = Finite 1, pruneDeadline = 3600000000050\<rparr>)],
      pidstore = None\<rparr>"
  unfolding tracker_example_def tracker_example_step2
  by (simp add: disconnected_def maxAwaitingTime_def AList.delete_eq)


text \<open>
  C9: the two maps of a tracker have no key in common: each of \<open>connected\<close>,
  \<open>disconnected\<close>, the sweep of \<open>gc\<close> and \<open>blockPeer\<close> keeps this, and it holds of every
  state that these operations reach from \<open>NewPeerTracker\<close>.
\<close>

theorem peer_maps_disjoint:
  "(disjoint_maps p \<longrightarrow>
      disjoint_maps (connected hst pID p) \<and> disjoint_maps (disconnected now pID p) \<and>
      disjoint_maps (gc_cycle now p) \<and> disjoint_maps (blockPeer pID p)) \<and>
   (reachable p \<longrightarrow> disjoint_maps p)"
proof (intro conjI impI)
  assume d: "disjoint_maps p"
  show "disjoint_maps (connected hst pID p)" by (rule disjoint_connected[OF d])
  show "disjoint_maps (disconnected now pID p)" by (rule disjoint_disconnected[OF d])
  show "disjoint_maps (gc_cycle now p)" by (rule disjoint_gc_cycle[OF d])
  show "disjoint_maps (blockPeer pID p)" by (rule disjoint_blockPeer[OF d])
next
  assume "reachable p"
  then show "disjoint_maps p" by (rule reachable_disjoint)
qed



theorem peer_maps_disjoint_witness:
  "reachable tracker_example \<and> disjoint_maps tracker_example \<and>
   disjoint_maps (connected host_example ''A'' tracker_example) \<and>
   map fst (trackedPeers (connected host_example ''A'' tracker_example)) = [''B'', ''A''] \<and>
   map fst (disconnectedPeers (connected host_example ''A'' tracker_example)) = [] \<and>
   disjoint_maps (disconnected 60 ''B'' tracker_example) \<and>
   map fst (trackedPeers (disconnected 60 ''B'' tracker_example)) = [] \<and>
   map fst (disconnectedPeers (disconnected 60 ''B'' tracker_example)) = [''A'', ''B''] \<and>
   disjoint_maps (gc_cycle 60 tracker_example) \<and>
   disjoint_maps (blockPeer ''A'' tracker_example)"
proof -
  have r: "reachable tracker_example"
    unfolding tracker_example_def
    by (rule reach_disconnected, rule reach_connected, rule reach_connected, rule reach_new)
  have d: "disjoint_maps tracker_example"
    using r peer_maps_disjoint [of tracker_example host_example "''A''" 60] by simp
  have a: "disjoint_maps (connected host_example ''A'' tracker_example) \<and>
           disjoint_maps (gc_cycle 60 tracker_example) \<and>
           disjoint_maps (blockPeer ''A'' tracker_example)"
    using d peer_maps_disjoint [of tracker_example host_example "''A''" 60] by simp
  have b: "disjoint_maps (disconnected 60 ''B'' tracker_example)"
    using d peer_maps_disjoint [of tracker_example host_example "''B''" 60] by simp
  have c: "connected host_example ''A'' tracker_example =
     \<lparr>trackedPeers = [(''B'', \<lparr>peerID = ''B'', peerScore = Finite 1, pruneDeadline = 0\<rparr>),
        (''A'', \<lparr>peerID = ''A'', peerScore = Finite 1, pruneDeadline = 3600000000050\<rparr>)],
      disconnectedPeers = [], pidstore = None\<rparr>"
    unfolding tracker_example_eq
    by (simp add: host_example_def connected_def maxPeerTrackerSize_def AList.delete_eq)
  have e: "disconnected 60 ''B'' tracker_example =
     \<lparr>trackedPeers = [],
      disconnectedPeers =
        [(''A'', \<lparr>peerID = ''A'', peerScore = Finite 1, pruneDeadline = 3600000000050\<rparr>),
         (''B'', \<lparr>peerID = ''B'', peerScore = Finite 1, pruneDeadline = 3600000000060\<rparr>)],
      pidstore = None\<rparr>"
    unfolding tracker_example_eq
    by (simp add: disconnected_def maxAwaitingTime_def AList.delete_eq)
  have c': "map fst (trackedPeers (connected host_example ''A'' tracker_example)) = [''B'', ''A'']"
    "map fst (disconnectedPeers (connected host_example ''A'' tracker_example)) = []"
    unfolding c by simp_all
  have e': "map fst (trackedPeers (disconnected 60 ''B'' tracker_example)) = []"
    "map fst (disconnectedPeers (disconnected 60 ''B'' tracker_example)) = [''A'', ''B'']"
    unfolding e by simp_all
  show ?thesis
    using r d a b c' e' by simp
qed

text \<open>
  C8: on a tracker whose maps have distinct keys, one cycle of \<open>gc\<close> leaves in
  \<open>disconnectedPeers\<close> exactly the entries whose \<open>pruneDeadline\<close> is not before \<open>now\<close>, and
  in \<open>trackedPeers\<close> exactly the entries whose score is not \<open><= defaultScore\<close>, each with
  the value it had; when there is a \<open>pidstore\<close>, it is handed one list, which holds the
  keys of the tracked peers that are left, each once.
\<close>

theorem gc_cycle_removes_exactly:
  assumes "wf_tracker p"
  shows "(\<forall>k. map_of (disconnectedPeers (gc_cycle now p)) k =
            (case map_of (disconnectedPeers p) k of
               None \<Rightarrow> None
             | Some st \<Rightarrow> if pruneDeadline st < now then None else Some st)) \<and>
         (\<forall>k. map_of (trackedPeers (gc_cycle now p)) k =
            (case map_of (trackedPeers p) k of
               None \<Rightarrow> None
             | Some st \<Rightarrow> if f32_le (peerScore st) defaultScore then None else Some st)) \<and>
         (case pidstore p of
            None \<Rightarrow> pidstore (gc_cycle now p) = None
          | Some puts \<Rightarrow>
              (\<exists>ids. pidstore (gc_cycle now p) = Some (puts @ [ids]) \<and> distinct ids \<and>
                     set ids = fst ` set (trackedPeers (gc_cycle now p))))"
proof (intro conjI allI)
  fix k
  show "map_of (disconnectedPeers (gc_cycle now p)) k =
            (case map_of (disconnectedPeers p) k of
               None \<Rightarrow> None
             | Some st \<Rightarrow> if pruneDeadline st < now then None else Some st)"
    by (rule gc_cycle_disconnected[OF assms])
  show "map_of (trackedPeers (gc_cycle now p)) k =
            (case map_of (trackedPeers p) k of
               None \<Rightarrow> None
             | Some st \<Rightarrow> if f32_le (peerScore st) defaultScore then None else Some st)"
    by (rule gc_cycle_tracked(2)[OF assms])
next
  let ?ids = "map fst (trackedPeers (gc_cycle now p))"
  have "distinct ?ids"
    using wf_gc_cycle[OF assms, of now] by (simp add: wf_tracker_def wf_map_def)
  moreover have "pidstore (gc_cycle now p) =
     (case pidstore p of None \<Rightarrow> None | Some puts \<Rightarrow> Some (puts @ [?ids]))"
    unfolding gc_cycle_tracked(1)[OF assms] by (rule gc_cycle_pidstore)
  ultimately show "case pidstore p of
            None \<Rightarrow> pidstore (gc_cycle now p) = None
          | Some puts \<Rightarrow>
              (\<exists>ids. pidstore (gc_cycle now p) = Some (puts @ [ids]) \<and> distinct ids \<and>
                     set ids = fst ` set (trackedPeers (gc_cycle now p)))"
    by (cases "pidstore p") auto
qed

lemma gc_example_result:
  "gc_cycle 200 gc_example =
     \<lparr>trackedPeers =
        [(''A'', \<lparr>peerID = ''A'', peerScore = Finite 5, pruneDeadline = 0\<rparr>),
         (''N'', \<lparr>peerID = ''N'', peerScore = NaN, pruneDeadline = 0\<rparr>)],
      disconnectedPeers =
        [(''E'', \<lparr>peerID = ''E'', peerScore = Finite 1, pruneDeadline = 300\<rparr>),
         (''F'', \<lparr>peerID = ''F'', peerScore = Finite 1, pruneDeadline = 200\<rparr>)],
      pidstore = Some [[''A'', ''N'']]\<rparr>"
  by (simp add: gc_cycle_def gc_example_def persistPeers_def defaultScore_def AList.delete_eq)

theorem gc_cycle_removes_exactly_witness:
  "wf_tracker gc_example \<and>
   map_of (disconnectedPeers (gc_cycle 200 gc_example)) ''D'' = None \<and>
   map_of (disconnectedPeers (gc_cycle 200 gc_example)) ''F''
     = Some \<lparr>peerID = ''F'', peerScore = Finite 1, pruneDeadline = 200\<rparr> \<and>
   map_of (trackedPeers (gc_cycle 200 gc_example)) ''B'' = None \<and>
   map_of (trackedPeers (gc_cycle 200 gc_example)) ''A''
     = Some \<lparr>peerID = ''A'', peerScore = Finite 5, pruneDeadline = 0\<rparr> \<and>
   pidstore (gc_cycle 200 gc_example) = Some [[''A'', ''N'']]"
proof -
  have w: "wf_tracker gc_example"
    by (simp add: wf_tracker_def wf_map_def gc_example_def)
  have "map_of (disconnectedPeers (gc_cycle 200 gc_example)) ''D'' = None"
    and "map_of (disconnectedPeers (gc_cycle 200 gc_example)) ''F''
     = Some \<lparr>peerID = ''F'', peerScore = Finite 1, pruneDeadline = 200\<rparr>"
    and "map_of (trackedPeers (gc_cycle 200 gc_example)) ''B'' = None"
    and "map_of (trackedPeers (gc_cycle 200 gc_example)) ''A''
     = Some \<lparr>peerID = ''A'', peerScore = Finite 5, pruneDeadline = 0\<rparr>"
    using gc_cycle_removes_exactly [OF w, of 200]
    by (simp_all add: gc_example_def defaultScore_def)
  then show ?thesis using w by (simp add: gc_example_result)
qed

text \<open>
  C7: for a peer that is not the host itself, has no transient connection and is in
  neither map, when the two maps together hold more than \<open>maxPeerTrackerSize\<close> (100)
  entries and \<open>trackedPeers\<close> holds more than \<open>disconnectedPeers\<close>, \<open>connected\<close> returns
  the tracker as it was.
\<close>

theorem connected_over_capacity:
  assumes "hostID hst \<noteq> pID" and "\<not> has_transient (connsToPeer hst pID)"
    and "map_of (trackedPeers p) pID = None" and "map_of (disconnectedPeers p) pID = None"
    and "length (trackedPeers p) + length (disconnectedPeers p) > 100"
    and "length (trackedPeers p) > length (disconnectedPeers p)"
  shows "connected hst pID p = p"
  using assms by (simp add: connected_def maxPeerTrackerSize_def)

lemma full_tracker_sizes:
  "length (trackedPeers full_tracker) = 101" "length (disconnectedPeers full_tracker) = 1"
  by (simp_all add: full_tracker_def)

lemma full_tracker_keys:
  "map fst (trackedPeers full_tracker) = [1..<102]"
  "map fst (disconnectedPeers full_tracker) = [0]"
  by (simp_all add: full_tracker_def comp_def)

lemma full_tracker_absent:
  "map_of (trackedPeers full_tracker) 500 = None"
  "map_of (disconnectedPeers full_tracker) 500 = None"
  "map_of (trackedPeers full_tracker) 0 = None"
proof -
  have "500 \<notin> set (map fst (trackedPeers full_tracker))"
    and "(0::nat) \<notin> set (map fst (trackedPeers full_tracker))"
    unfolding full_tracker_keys by simp_all
  then show "map_of (trackedPeers full_tracker) 500 = None"
    and "map_of (trackedPeers full_tracker) 0 = None"
    by (simp_all add: map_of_eq_None_iff)
  show "map_of (disconnectedPeers full_tracker) 500 = None"
    by (simp add: full_tracker_def)
qed

theorem connected_over_capacity_witness:
  "hostID nat_host \<noteq> 500 \<and> \<not> has_transient (connsToPeer nat_host 500) \<and>
   wf_tracker full_tracker \<and>
   map_of (trackedPeers full_tracker) 500 = None \<and>
   map_of (disconnectedPeers full_tracker) 500 = None \<and>
   length (trackedPeers full_tracker) + length (disconnectedPeers full_tracker) = 102 \<and>
   connected nat_host 500 full_tracker = full_tracker"
proof -
  have h: "hostID nat_host \<noteq> 500" "\<not> has_transient (connsToPeer nat_host 500)"
    by (simp_all add: nat_host_def)
  have w: "wf_tracker full_tracker"
    unfolding wf_tracker_def wf_map_def full_tracker_keys by simp
  have "connected nat_host 500 full_tracker = full_tracker"
    by (rule connected_over_capacity[OF h full_tracker_absent(1,2)])
       (simp_all add: full_tracker_sizes)
  then show ?thesis using h w full_tracker_absent full_tracker_sizes by simp
qed

text \<open>
  C3: a second \<open>connected\<close> for a peer that is tracked (and not disconnected) does not
  leave the tracker as it was: it stores a new \<open>peerStat\<close> with \<open>defaultScore\<close> under the
  peer, here in place of the one with score 5.
\<close>

theorem connected_again_resets_score:
  "map_of (trackedPeers scored_tracker) ''A''
     = Some \<lparr>peerID = ''A'', peerScore = Finite 5, pruneDeadline = zeroTime\<rparr> \<and>
   map_of (disconnectedPeers scored_tracker) ''A'' = None \<and>
   map_of (trackedPeers (connected host_example ''A'' scored_tracker)) ''A''
     = Some \<lparr>peerID = ''A'', peerScore = Finite 1, pruneDeadline = zeroTime\<rparr> \<and>
   connected host_example ''A'' scored_tracker \<noteq> scored_tracker"
  by (simp add: scored_tracker_def host_example_def connected_def maxPeerTrackerSize_def
        defaultScore_def)

lemma connected_unguarded:
  assumes "hostID hst \<noteq> pID" and "\<not> has_transient (connsToPeer hst pID)"
    and "\<not> (length (trackedPeers p) + length (disconnectedPeers p) > maxPeerTrackerSize \<and>
            length (trackedPeers p) > length (disconnectedPeers p))"
  shows "connected hst pID p =
     (case map_of (disconnectedPeers p) pID of
        None \<Rightarrow>
          p\<lparr>trackedPeers :=
              AList.update pID \<lparr>peerID = pID, peerScore = defaultScore, pruneDeadline = zeroTime\<rparr>
                (trackedPeers p)\<rparr>
      | Some stats \<Rightarrow>
          p\<lparr>disconnectedPeers := AList.delete pID (disconnectedPeers p),
            trackedPeers := AList.update pID stats (trackedPeers p)\<rparr>)"
  using assms(1,2) assms(3) unfolding connected_def by (simp only: if_False)

lemma connected_moves:
  assumes "hostID hst \<noteq> pID" and "\<not> has_transient (connsToPeer hst pID)"
    and "\<not> (length (trackedPeers p) + length (disconnectedPeers p) > maxPeerTrackerSize \<and>
            length (trackedPeers p) > length (disconnectedPeers p))"
    and "map_of (disconnectedPeers p) pID = Some stats"
  shows "map_of (trackedPeers (connected hst pID p)) pID = Some stats"
    and "map_of (disconnectedPeers (connected hst pID p)) pID = None"
  unfolding connected_unguarded[OF assms(1,2,3)] using assms(4)
  by (simp_all add: AList.update_conv' AList.delete_conv')

lemma connected_creates:
  assumes "hostID hst \<noteq> pID" and "\<not> has_transient (connsToPeer hst pID)"
    and "\<not> (length (trackedPeers p) + length (disconnectedPeers p) > maxPeerTrackerSize \<and>
            length (trackedPeers p) > length (disconnectedPeers p))"
    and "map_of (disconnectedPeers p) pID = None"
  shows "map_of (trackedPeers (connected hst pID p)) pID
           = Some \<lparr>peerID = pID, peerScore = defaultScore, pruneDeadline = zeroTime\<rparr>"
    and "disconnectedPeers (connected hst pID p) = disconnectedPeers p"
  unfolding connected_unguarded[OF assms(1,2,3)] using assms(4)
  by (simp_all add: AList.update_conv')

lemma disconnected_then_gc:
  assumes wf: "wf_tracker q" and tr: "map_of (trackedPeers q) pID = Some stats"
    and t: "\<not> (t0 + maxAwaitingTime < t1)"
  shows "map_of (disconnectedPeers (gc_cycle t1 (disconnected t0 pID q))) pID
           = Some (stats\<lparr>pruneDeadline := t0 + maxAwaitingTime\<rparr>)"
proof -
  have "map_of (disconnectedPeers (disconnected t0 pID q)) pID
          = Some (stats\<lparr>pruneDeadline := t0 + maxAwaitingTime\<rparr>)"
    using tr by (simp add: disconnected_def AList.update_conv')
  then show ?thesis
    using t by (simp add: gc_cycle_disconnected[OF wf_disconnected[OF wf]])
qed

text \<open>
  C4 as stated fails. A peer of \<open>disconnectedPeers\<close> that reconnects is moved with the
  \<open>pruneDeadline\<close> stamped at its disconnection, which is not the zero instant; and it is
  not moved at all when the host reports a transient connection to it, or when the
  capacity check of line 136 holds (101 tracked peers and 1 disconnected one here). For
  the host's own identity, which is in neither map, no \<open>peerStat\<close> is created.
\<close>

theorem connected_keeps_deadline:
  "map_of (disconnectedPeers tracker_example) ''A''
     = Some \<lparr>peerID = ''A'', peerScore = Finite 1, pruneDeadline = 3600000000050\<rparr> \<and>
   map_of (trackedPeers (connected host_example ''A'' tracker_example)) ''A''
     = Some \<lparr>peerID = ''A'', peerScore = Finite 1, pruneDeadline = 3600000000050\<rparr> \<and>
   (3600000000050 :: time) \<noteq> zeroTime \<and>
   map_of (trackedPeers (connected transient_host ''A'' tracker_example)) ''A'' = None \<and>
   map_of (disconnectedPeers (connected transient_host ''A'' tracker_example)) ''A''
     = Some \<lparr>peerID = ''A'', peerScore = Finite 1, pruneDeadline = 3600000000050\<rparr> \<and>
   map_of (disconnectedPeers full_tracker) 0
     = Some \<lparr>peerID = 0, peerScore = Finite 7, pruneDeadline = 99\<rparr> \<and>
   connected nat_host 0 full_tracker = full_tracker \<and>
   map_of (trackedPeers tracker_example) ''self'' = None \<and>
   map_of (disconnectedPeers tracker_example) ''self'' = None \<and>
   map_of (trackedPeers (connected host_example ''self'' tracker_example)) ''self'' = None"
proof -
  have s: "connected host_example ''self'' tracker_example = tracker_example"
    by (simp add: connected_def host_example_def)
  have a: "connected transient_host ''A'' tracker_example = tracker_example"
    by (simp add: connected_def transient_host_def)
  have b: "connected nat_host 0 full_tracker = full_tracker"
    by (simp add: connected_def nat_host_def full_tracker_sizes maxPeerTrackerSize_def)
  have c: "map_of (trackedPeers (connected host_example ''A'' tracker_example)) ''A''
     = Some \<lparr>peerID = ''A'', peerScore = Finite 1, pruneDeadline = 3600000000050\<rparr>"
    unfolding tracker_example_eq
    by (simp add: host_example_def connected_def maxPeerTrackerSize_def AList.delete_eq)
  have d: "map_of (disconnectedPeers full_tracker) 0
     = Some \<lparr>peerID = 0, peerScore = Finite 7, pruneDeadline = 99\<rparr>"
    by (simp add: full_tracker_def)
  show ?thesis
    unfolding a b s using c d by (simp add: tracker_example_eq zeroTime_def)
qed

text \<open>
  C4, amended: let the peer not be the host itself, have no transient connection, and
  let the capacity check of line 136 not hold. If the peer is in \<open>disconnectedPeers\<close>,
  \<open>connected\<close> puts its \<open>peerStat\<close>, as it is (score and \<open>pruneDeadline\<close> included), into
  \<open>trackedPeers\<close> and removes the peer from \<open>disconnectedPeers\<close>. If it is in neither map,
  \<open>connected\<close> stores a new \<open>peerStat\<close> with \<open>defaultScore\<close> for it and leaves
  \<open>disconnectedPeers\<close> as it was. So a tracked peer that disconnects at \<open>t0\<close> and
  reconnects after a cycle of \<open>gc\<close> at \<open>t1\<close>, not later than \<open>t0 + maxAwaitingTime\<close>, is
  tracked again with the score it had.
\<close>

theorem connected_restores_stat:
  assumes "hostID hst \<noteq> pID" and "\<not> has_transient (connsToPeer hst pID)"
    and "\<not> (length (trackedPeers p) + length (disconnectedPeers p) > maxPeerTrackerSize \<and>
            length (trackedPeers p) > length (disconnectedPeers p))"
  shows "(\<forall>stats. map_of (disconnectedPeers p) pID = Some stats \<longrightarrow>
            map_of (trackedPeers (connected hst pID p)) pID = Some stats \<and>
            map_of (disconnectedPeers (connected hst pID p)) pID = None) \<and>
         (map_of (disconnectedPeers p) pID = None \<and> map_of (trackedPeers p) pID = None \<longrightarrow>
            map_of (trackedPeers (connected hst pID p)) pID
              = Some \<lparr>peerID = pID, peerScore = defaultScore, pruneDeadline = zeroTime\<rparr> \<and>
            disconnectedPeers (connected hst pID p) = disconnectedPeers p) \<and>
         (\<forall>q stats t0 t1.
            wf_tracker q \<and> map_of (trackedPeers q) pID = Some stats \<and>
            \<not> (t0 + maxAwaitingTime < t1) \<and> p = gc_cycle t1 (disconnected t0 pID q) \<longrightarrow>
            map_of (trackedPeers (connected hst pID p)) pID
              = Some (stats\<lparr>pruneDeadline := t0 + maxAwaitingTime\<rparr>) \<and>
            peerScore (stats\<lparr>pruneDeadline := t0 + maxAwaitingTime\<rparr>) = peerScore stats)"
proof (intro conjI allI impI)
  fix stats assume "map_of (disconnectedPeers p) pID = Some stats"
  then show "map_of (trackedPeers (connected hst pID p)) pID = Some stats"
    and "map_of (disconnectedPeers (connected hst pID p)) pID = None"
    by (rule connected_moves[OF assms])+
next
  assume "map_of (disconnectedPeers p) pID = None \<and> map_of (trackedPeers p) pID = None"
  then have n: "map_of (disconnectedPeers p) pID = None" by simp
  show "map_of (trackedPeers (connected hst pID p)) pID
              = Some \<lparr>peerID = pID, peerScore = defaultScore, pruneDeadline = zeroTime\<rparr>"
    and "disconnectedPeers (connected hst pID p) = disconnectedPeers p"
    by (rule connected_creates[OF assms n])+
next
  fix q stats t0 t1
  assume a: "wf_tracker q \<and> map_of (trackedPeers q) pID = Some stats \<and>
            \<not> (t0 + maxAwaitingTime < t1) \<and> p = gc_cycle t1 (disconnected t0 pID q)"
  then have "map_of (disconnectedPeers p) pID = Some (stats\<lparr>pruneDeadline := t0 + maxAwaitingTime\<rparr>)"
    using disconnected_then_gc[of q pID stats t0 t1] by simp
  then show "map_of (trackedPeers (connected hst pID p)) pID
              = Some (stats\<lparr>pruneDeadline := t0 + maxAwaitingTime\<rparr>)"
    by (rule connected_moves(1)[OF assms])
  show "peerScore (stats\<lparr>pruneDeadline := t0 + maxAwaitingTime\<rparr>) = peerScore stats"
    by simp
qed

lemma scored_tracker_away:
  "disconnected 50 ''A'' scored_tracker =
     \<lparr>trackedPeers = [],
      disconnectedPeers =
        [(''A'', \<lparr>peerID = ''A'', peerScore = Finite 5, pruneDeadline = 50 + maxAwaitingTime\<rparr>)],
      pidstore = None\<rparr>"
  by (simp add: scored_tracker_def disconnected_def AList.delete_eq)

lemma scored_tracker_swept:
  "gc_cycle 60 (disconnected 50 ''A'' scored_tracker) = disconnected 50 ''A'' scored_tracker"
  unfolding scored_tracker_away
  by (simp add: gc_cycle_def persistPeers_def maxAwaitingTime_def)

theorem connected_restores_stat_witness:
  "hostID host_example \<noteq> ''A'' \<and> \<not> has_transient (connsToPeer host_example ''A'') \<and>
   length (trackedPeers tracker_example) + length (disconnectedPeers tracker_example) = 2 \<and>
   map_of (disconnectedPeers tracker_example) ''A''
     = Some \<lparr>peerID = ''A'', peerScore = Finite 1, pruneDeadline = 3600000000050\<rparr> \<and>
   map_of (trackedPeers (connected host_example ''A'' tracker_example)) ''A''
     = Some \<lparr>peerID = ''A'', peerScore = Finite 1, pruneDeadline = 3600000000050\<rparr> \<and>
   map_of (disconnectedPeers (connected host_example ''A'' tracker_example)) ''A'' = None \<and>
   map_of (trackedPeers (connected host_example ''Z'' tracker_example)) ''Z''
     = Some \<lparr>peerID = ''Z'', peerScore = defaultScore, pruneDeadline = zeroTime\<rparr> \<and>
   wf_tracker scored_tracker \<and>
   map_of (trackedPeers scored_tracker) ''A''
     = Some \<lparr>peerID = ''A'', peerScore = Finite 5, pruneDeadline = zeroTime\<rparr> \<and>
   map_of (trackedPeers
      (connected host_example ''A'' (gc_cycle 60 (disconnected 50 ''A'' scored_tracker)))) ''A''
     = Some \<lparr>peerID = ''A'', peerScore = Finite 5, pruneDeadline = 50 + maxAwaitingTime\<rparr>"
proof -
  have hA: "hostID host_example \<noteq> ''A''" "\<not> has_transient (connsToPeer host_example ''A'')"
    and hZ: "hostID host_example \<noteq> ''Z''" "\<not> has_transient (connsToPeer host_example ''Z'')"
    by (simp_all add: host_example_def)
  have g1: "\<not> (length (trackedPeers tracker_example) + length (disconnectedPeers tracker_example)
                  > maxPeerTrackerSize \<and>
               length (trackedPeers tracker_example) > length (disconnectedPeers tracker_example))"
    and l1: "length (trackedPeers tracker_example) + length (disconnectedPeers tracker_example) = 2"
    and dA: "map_of (disconnectedPeers tracker_example) ''A''
               = Some \<lparr>peerID = ''A'', peerScore = Finite 1, pruneDeadline = 3600000000050\<rparr>"
    and nZ: "map_of (disconnectedPeers tracker_example) ''Z'' = None"
            "map_of (trackedPeers tracker_example) ''Z'' = None"
    by (simp_all add: tracker_example_eq)
  let ?p = "gc_cycle 60 (disconnected 50 ''A'' scored_tracker)"
  have g3: "\<not> (length (trackedPeers ?p) + length (disconnectedPeers ?p) > maxPeerTrackerSize \<and>
               length (trackedPeers ?p) > length (disconnectedPeers ?p))"
    unfolding scored_tracker_swept by (simp add: scored_tracker_away)
  have w: "wf_tracker scored_tracker"
    and tA: "map_of (trackedPeers scored_tracker) ''A''
               = Some \<lparr>peerID = ''A'', peerScore = Finite 5, pruneDeadline = zeroTime\<rparr>"
    by (simp_all add: scored_tracker_def wf_tracker_def wf_map_def)
  have t: "\<not> (50 + maxAwaitingTime < 60)" by (simp add: maxAwaitingTime_def)
  have m1: "map_of (trackedPeers (connected host_example ''A'' tracker_example)) ''A''
     = Some \<lparr>peerID = ''A'', peerScore = Finite 1, pruneDeadline = 3600000000050\<rparr>"
    and m2: "map_of (disconnectedPeers (connected host_example ''A'' tracker_example)) ''A'' = None"
    using connected_restores_stat [OF hA g1] dA by simp_all
  have m3: "map_of (trackedPeers (connected host_example ''Z'' tracker_example)) ''Z''
     = Some \<lparr>peerID = ''Z'', peerScore = defaultScore, pruneDeadline = zeroTime\<rparr>"
    using connected_restores_stat [OF hZ g1] nZ by simp
  have m4: "map_of (trackedPeers (connected host_example ''A'' ?p)) ''A''
     = Some \<lparr>peerID = ''A'', peerScore = Finite 5, pruneDeadline = 50 + maxAwaitingTime\<rparr>"
  proof -
    have "wf_tracker scored_tracker \<and>
          map_of (trackedPeers scored_tracker) ''A''
            = Some \<lparr>peerID = ''A'', peerScore = Finite 5, pruneDeadline = zeroTime\<rparr> \<and>
          \<not> (50 + maxAwaitingTime < 60) \<and> ?p = gc_cycle 60 (disconnected 50 ''A'' scored_tracker)"
      using w tA t by simp
    then have "map_of (trackedPeers (connected host_example ''A'' ?p)) ''A''
      = Some (\<lparr>peerID = ''A'', peerScore = Finite 5, pruneDeadline = zeroTime\<rparr>
                \<lparr>pruneDeadline := 50 + maxAwaitingTime\<rparr>)"
      using connected_restores_stat [OF hA g3] by blast
    then show ?thesis by simp
  qed
  show ?thesis
    using hA l1 dA m1 m2 m3 w tA m4 by (intro conjI)
qed

end
